theory Spec2Isabelle
  imports
    Complex_Main
    "HOL-Library.Word"
    "HOL-Library.Multiset"
    "HOL-Library.Product_Lexorder"
    "HOL-Library.Signed_Division"
begin

unbundle bit_operations_syntax

chapter \<open>The CoreTiming event scheduler (Source/Core/Core/CoreTiming.cpp)\<close>

section \<open>Machine integers\<close>

text \<open>
  \<open>s64\<close>, \<open>u64\<close>, \<open>int\<close> (32 bit) and \<open>u32\<close> are words; the signed ones are read with
  \<open>sint\<close> and compared with \<open><s\<close> and \<open>\<le>s\<close>, the unsigned ones with \<open>unat\<close>, \<open><\<close> and
  \<open>\<le>\<close>. Addition, subtraction and multiplication wrap around. Where the C++ would
  overflow a signed integer (undefined behaviour) the model wraps.
\<close>

type_synonym s64 = "64 word"
type_synonym u64 = "64 word"
type_synonym s32 = "32 word"
type_synonym u32 = "32 word"

text \<open>Division of two \<open>s64\<close> values, truncating towards zero as C++ does.\<close>

definition s64_div :: "s64 \<Rightarrow> s64 \<Rightarrow> s64" where
  "s64_div a b = word_of_int (sint a sdiv sint b)"

text \<open>\<open>std::max<s64>(a, b)\<close> is \<open>(a < b) ? b : a\<close>, \<open>std::min<s64>(a, b)\<close> is \<open>(b < a) ? b : a\<close>.\<close>

definition max_s64 :: "s64 \<Rightarrow> s64 \<Rightarrow> s64" where
  "max_s64 a b = (if a <s b then b else a)"

definition min_s64 :: "s64 \<Rightarrow> s64 \<Rightarrow> s64" where
  "min_s64 a b = (if b <s a then b else a)"

section \<open>Floating point\<close>

text \<open>
  The overclock factors are \<open>float\<close>s. Their type is a parameter \<open>'f\<close> of the model, and the
  three operations the scheduler performs on them are the fields of \<open>fpu\<close>:
  \<open>int_times_float i f\<close> is \<open>static_cast<int>(i * f)\<close>, \<open>float_recip f\<close> is \<open>1.0f / f\<close> and
  \<open>float_one\<close> is \<open>1.0f\<close>.
\<close>

record 'f fpu =
  int_times_float :: "s32 \<Rightarrow> 'f \<Rightarrow> s32"
  float_recip :: "'f \<Rightarrow> 'f"
  float_one :: "'f"

section \<open>Event types and events\<close>

text \<open>
  An \<open>EventType*\<close> points at a node of \<open>event_types\<close>, an \<open>unordered_map\<close> whose nodes never
  move: the pointer is modelled by the key of its node, \<open>None\<close> is \<open>nullptr\<close>. Two pointers
  are equal when their keys are, which is so as long as the registry is not cleared.
\<close>

type_synonym EventTypePtr = "string option"

datatype FromThread = CPU | NON_CPU | ANY

text \<open>
  The code of the callbacks is not part of the scheduler. A callback runs on the CPU thread
  inside \<open>Advance\<close>; it is modelled by what it does to the scheduler: the calls of
  \<open>ScheduleEvent\<close>, \<open>RemoveEvent\<close>, \<open>RemoveAllEvents\<close> and \<open>ForceExceptionCheck\<close> it makes, in
  their order, which may depend on its arguments \<open>userdata\<close> and \<open>cyclesLate\<close>. The system
  that is passed to it is the state these calls act on.
\<close>

datatype Call =
    CallScheduleEvent s64 EventTypePtr u64 FromThread
  | CallRemoveEvent EventTypePtr
  | CallRemoveAllEvents EventTypePtr
  | CallForceExceptionCheck s64

type_synonym TimedCallback = "u64 \<Rightarrow> s64 \<Rightarrow> Call list"

record EventType =
  callback :: TimedCallback
  name :: "string option"

record Event =
  time :: s64
  fifo_order :: u64
  userdata :: u64
  type :: EventTypePtr

text \<open>\<open>operator>\<close> and \<open>operator<\<close> on events: \<open>std::tie(time, fifo_order)\<close> compared as tuples.\<close>

definition Event_greater :: "Event \<Rightarrow> Event \<Rightarrow> bool" where
  "Event_greater left right \<longleftrightarrow>
     time right <s time left \<or> (\<not> time left <s time right \<and> fifo_order right < fifo_order left)"

definition Event_less :: "Event \<Rightarrow> Event \<Rightarrow> bool" where
  "Event_less left right \<longleftrightarrow>
     time left <s time right \<or> (\<not> time right <s time left \<and> fifo_order left < fifo_order right)"

text \<open>The pair an event is ordered by, as mathematical integers.\<close>

definition ev_key :: "Event \<Rightarrow> int \<times> nat" where
  "ev_key e = (sint (time e), unat (fifo_order e))"

definition MAX_SLICE_LENGTH :: s32 where
  "MAX_SLICE_LENGTH = 20000"

section \<open>The heap algorithms of the standard library\<close>

text \<open>
  \<open>event_queue\<close> is a \<open>std::vector\<close> kept as a heap by \<open>std::push_heap\<close>, \<open>std::pop_heap\<close> and
  \<open>std::make_heap\<close> with the comparison \<open>std::greater<Event>\<close>, that is \<open>operator>\<close>. The
  standard fixes what these functions establish, not the layout they produce; they are
  modelled by the binary heap algorithms on the array: an element moves up while its parent
  compares greater, and moves down while its smaller child compares less.
\<close>

definition swap :: "'a list \<Rightarrow> nat \<Rightarrow> nat \<Rightarrow> 'a list" where
  "swap xs i j = xs[i := xs ! j, j := xs ! i]"

definition parent :: "nat \<Rightarrow> nat" where
  "parent j = (j - 1) div 2"

function sift_up :: "Event list \<Rightarrow> nat \<Rightarrow> Event list" where
  "sift_up xs i =
     (if i = 0 \<or> length xs \<le> i then xs
      else if Event_greater (xs ! parent i) (xs ! i)
           then sift_up (swap xs (parent i) i) (parent i)
           else xs)"
  by pat_completeness auto
termination
  by (relation "measure snd") (auto simp: parent_def)

function sift_down :: "Event list \<Rightarrow> nat \<Rightarrow> Event list" where
  "sift_down xs i =
     (if length xs \<le> 2 * i + 1 then xs
      else
        let c = (if 2 * i + 2 < length xs \<and> Event_greater (xs ! (2 * i + 1)) (xs ! (2 * i + 2))
                 then 2 * i + 2 else 2 * i + 1)
        in if Event_greater (xs ! i) (xs ! c) then sift_down (swap xs i c) c else xs)"
  by pat_completeness auto
termination
  by (relation "measure (\<lambda>(xs, i). length xs - i)") (auto simp: swap_def)

declare sift_up.simps [simp del] sift_down.simps [simp del]

text \<open>\<open>std::push_heap(begin, end, greater)\<close>: the last element enters the heap before it.\<close>

definition push_heap :: "Event list \<Rightarrow> Event list" where
  "push_heap xs = sift_up xs (length xs - 1)"

text \<open>
  \<open>std::pop_heap(begin, end, greater)\<close>: the first element goes to the last position and
  the elements before it are a heap again.
\<close>

definition pop_heap :: "Event list \<Rightarrow> Event list" where
  "pop_heap xs =
     (if length xs \<le> 1 then xs
      else sift_down (butlast (swap xs 0 (length xs - 1))) 0 @ [hd xs])"

text \<open>\<open>std::make_heap(begin, end, greater)\<close>: every inner node, from the last one down to the root, is moved down.\<close>

definition make_heap :: "Event list \<Rightarrow> Event list" where
  "make_heap xs = fold (\<lambda>i ys. sift_down ys i) (rev [0..<length xs div 2]) xs"

text \<open>
  \<open>std::is_heap(begin, end, greater)\<close>: no element compares less than its parent, so the
  first element is a least one.
\<close>

definition is_heap :: "Event list \<Rightarrow> bool" where
  "is_heap xs \<longleftrightarrow> (\<forall>j \<in> {1..<length xs}. \<not> Event_greater (xs ! parent j) (xs ! j))"

text \<open>
  Invariants of the two sifting loops: \<open>heap_from l\<close> orders every child under a parent at
  index \<open>l\<close> or above; \<open>heap_but_down l i\<close> leaves out the children of \<open>i\<close> but orders them
  under the parent of \<open>i\<close>; \<open>heap_but_up i\<close> leaves out \<open>i\<close> itself but orders its children
  under its parent.
\<close>

definition heap_from :: "nat \<Rightarrow> Event list \<Rightarrow> bool" where
  "heap_from l xs \<longleftrightarrow>
     (\<forall>j<length xs. 0 < j \<and> l \<le> parent j \<longrightarrow> ev_key (xs ! parent j) \<le> ev_key (xs ! j))"

definition heap_but_down :: "nat \<Rightarrow> nat \<Rightarrow> Event list \<Rightarrow> bool" where
  "heap_but_down l i xs \<longleftrightarrow>
     (\<forall>j<length xs. 0 < j \<and> l \<le> parent j \<and> parent j \<noteq> i
        \<longrightarrow> ev_key (xs ! parent j) \<le> ev_key (xs ! j)) \<and>
     (0 < i \<and> l \<le> parent i \<longrightarrow>
        (\<forall>j<length xs. 0 < j \<and> parent j = i \<longrightarrow> ev_key (xs ! parent i) \<le> ev_key (xs ! j)))"

definition heap_but_up :: "nat \<Rightarrow> Event list \<Rightarrow> bool" where
  "heap_but_up i xs \<longleftrightarrow>
     (\<forall>j<length xs. 0 < j \<and> j \<noteq> i \<longrightarrow> ev_key (xs ! parent j) \<le> ev_key (xs ! j)) \<and>
     (0 < i \<longrightarrow>
        (\<forall>j<length xs. 0 < j \<and> parent j = i \<longrightarrow> ev_key (xs ! parent i) \<le> ev_key (xs ! j)))"

section \<open>The state of the scheduler\<close>

text \<open>
  One record holds \<open>CoreTiming::Globals\<close> (the first five fields),
  \<open>CoreTimingState::Data\<close> and \<open>PowerPC::ppcState.downcount\<close>. \<open>ts_queue\<close> is the queue
  filled by the other threads; the mutex and the id of the configuration callback are
  left out.
\<close>

record 'f System =
  global_timer :: s64
  slice_length :: s32
  fake_TB_start_value :: u64
  fake_TB_start_ticks :: u64
  last_OC_factor_inverted :: 'f
  event_types :: "string \<rightharpoonup> EventType"
  event_queue :: "Event list"
  event_fifo_id :: u64
  ts_queue :: "Event list"
  last_oc_factor :: 'f
  idled_cycles :: s64
  fake_dec_start_value :: u32
  fake_dec_start_ticks :: u64
  is_global_timer_sane :: bool
  ev_lost :: EventTypePtr
  config_oc_factor :: 'f
  config_oc_inv_factor :: 'f
  config_sync_on_skip_idle :: bool
  downcount :: s32

text \<open>The three settings \<open>RefreshConfig\<close> reads with \<open>Config::Get\<close>.\<close>

record 'f Config =
  MAIN_OVERCLOCK_ENABLE :: bool
  MAIN_OVERCLOCK :: 'f
  MAIN_SYNC_ON_SKIP_IDLE :: bool

definition EmptyTimedCallback :: TimedCallback where
  "EmptyTimedCallback ud cyclesLate = []"

definition DowncountToCycles :: "'f fpu \<Rightarrow> 'f System \<Rightarrow> s32 \<Rightarrow> s32" where
  "DowncountToCycles fp g d = int_times_float fp d (last_OC_factor_inverted g)"

definition CyclesToDowncount :: "'f fpu \<Rightarrow> 'f System \<Rightarrow> s32 \<Rightarrow> s32" where
  "CyclesToDowncount fp state cycles = int_times_float fp cycles (last_oc_factor state)"

section \<open>The registry of event types\<close>

text \<open>
  \<open>RegisterEvent\<close>: the assertion that the name is new only reports; \<open>emplace\<close> inserts
  nothing when the key is present and returns the node that is there. The name pointer of
  the node is then set to the node's key.
\<close>

definition RegisterEvent :: "string \<Rightarrow> TimedCallback \<Rightarrow> 'f System \<Rightarrow> EventTypePtr \<times> 'f System" where
  "RegisterEvent nm cb s =
     (let node = (case event_types s nm of
                    None \<Rightarrow> \<lparr>callback = cb, name = None\<rparr>
                  | Some present \<Rightarrow> present)
      in (Some nm, s\<lparr>event_types := (event_types s)(nm \<mapsto> node\<lparr>name := Some nm\<rparr>)\<rparr>))"

definition UnregisterAllEvents :: "'f System \<Rightarrow> 'f System" where
  "UnregisterAllEvents s = s\<lparr>event_types := Map.empty\<rparr>"

definition RefreshConfig :: "'f fpu \<Rightarrow> 'f Config \<Rightarrow> 'f System \<Rightarrow> 'f System" where
  "RefreshConfig fp cfg s =
     (let oc = (if MAIN_OVERCLOCK_ENABLE cfg then MAIN_OVERCLOCK cfg else float_one fp)
      in s\<lparr>config_oc_factor := oc,
            config_oc_inv_factor := float_recip fp oc,
            config_sync_on_skip_idle := MAIN_SYNC_ON_SKIP_IDLE cfg\<rparr>)"

definition Init :: "'f fpu \<Rightarrow> 'f Config \<Rightarrow> 'f System \<Rightarrow> 'f System" where
  "Init fp cfg s =
     (let s1 = RefreshConfig fp cfg s;
          s2 = s1\<lparr>last_oc_factor := config_oc_factor s1,
                   last_OC_factor_inverted := config_oc_inv_factor s1\<rparr>;
          s3 = s2\<lparr>downcount := CyclesToDowncount fp s2 MAX_SLICE_LENGTH,
                   slice_length := MAX_SLICE_LENGTH,
                   global_timer := 0,
                   idled_cycles := 0,
                   is_global_timer_sane := True,
                   event_fifo_id := 0\<rparr>;
          (lost, s4) = RegisterEvent ''_lost_event'' EmptyTimedCallback s3
      in s4\<lparr>ev_lost := lost\<rparr>)"

section \<open>Time and scheduling\<close>

text \<open>\<open>GetTicks\<close>: the \<open>int\<close> difference is converted to \<open>u64\<close> (sign extended) and added.\<close>

definition GetTicks :: "'f fpu \<Rightarrow> 'f System \<Rightarrow> u64" where
  "GetTicks fp s =
     (if \<not> is_global_timer_sane s
      then global_timer s + scast (slice_length s - DowncountToCycles fp s (downcount s))
      else global_timer s)"

definition GetIdleTicks :: "'f System \<Rightarrow> u64" where
  "GetIdleTicks s = idled_cycles s"

definition ClearPendingEvents :: "'f System \<Rightarrow> 'f System" where
  "ClearPendingEvents s = s\<lparr>event_queue := []\<rparr>"

text \<open>
  \<open>ForceExceptionCheck\<close>: the comparison is between the \<open>int\<close> remaining cycles, converted
  to \<open>s64\<close>, and the clamped \<open>s64\<close> argument; \<open>static_cast<int>(cycles)\<close> keeps the low 32 bits.
\<close>

definition ForceExceptionCheck :: "'f fpu \<Rightarrow> s64 \<Rightarrow> 'f System \<Rightarrow> 'f System" where
  "ForceExceptionCheck fp cycles0 s =
     (let cycles = max_s64 0 cycles0
      in if cycles <s scast (DowncountToCycles fp s (downcount s))
         then s\<lparr>slice_length := slice_length s - (DowncountToCycles fp s (downcount s) - ucast cycles),
                 downcount := CyclesToDowncount fp s (ucast cycles)\<rparr>
         else s)"

text \<open>
  \<open>ScheduleEvent\<close>: \<open>is_cpu_thread\<close> is what \<open>Core::IsCPUThread()\<close> answers. The two
  assertions (a null type, a wrong thread) and the error logged under determinism only
  report.
\<close>

definition ScheduleEvent ::
  "'f fpu \<Rightarrow> bool \<Rightarrow> s64 \<Rightarrow> EventTypePtr \<Rightarrow> u64 \<Rightarrow> FromThread \<Rightarrow> 'f System \<Rightarrow> 'f System" where
  "ScheduleEvent fp is_cpu_thread cycles_into_future event_type ud from s =
     (let from_cpu_thread = (if from = ANY then is_cpu_thread else from = CPU)
      in if from_cpu_thread
         then
           let timeout = GetTicks fp s + cycles_into_future;
               s1 = (if \<not> is_global_timer_sane s then ForceExceptionCheck fp cycles_into_future s else s)
           in s1\<lparr>event_queue :=
                    push_heap (event_queue s1 @
                      [\<lparr>time = timeout, fifo_order = event_fifo_id s1, userdata = ud, type = event_type\<rparr>]),
                  event_fifo_id := event_fifo_id s1 + 1\<rparr>
         else
           s\<lparr>ts_queue := ts_queue s @
                 [\<lparr>time = global_timer s + cycles_into_future, fifo_order = 0, userdata = ud,
                   type = event_type\<rparr>]\<rparr>)"

text \<open>\<open>MoveEvents\<close>: each event of \<open>ts_queue\<close>, oldest first, gets the next sequence number and enters the heap.\<close>

primrec move_each :: "Event list \<Rightarrow> 'f System \<Rightarrow> 'f System" where
  "move_each [] s = s"
| "move_each (ev # rest) s =
     move_each rest
       (s\<lparr>event_queue := push_heap (event_queue s @ [ev\<lparr>fifo_order := event_fifo_id s\<rparr>]),
          event_fifo_id := event_fifo_id s + 1\<rparr>)"

definition MoveEvents :: "'f System \<Rightarrow> 'f System" where
  "MoveEvents s = move_each (ts_queue s) (s\<lparr>ts_queue := []\<rparr>)"

text \<open>
  \<open>RemoveEvent\<close>: \<open>std::remove_if\<close> moves the events of other types to the front, in their
  order, and returns the end of that range; only when this is not the end of the vector is
  the tail erased and the heap made again.
\<close>

definition RemoveEvent :: "EventTypePtr \<Rightarrow> 'f System \<Rightarrow> 'f System" where
  "RemoveEvent event_type s =
     (let kept = filter (\<lambda>e. type e \<noteq> event_type) (event_queue s)
      in if length kept \<noteq> length (event_queue s)
         then s\<lparr>event_queue := make_heap kept\<rparr>
         else s)"

definition RemoveAllEvents :: "EventTypePtr \<Rightarrow> 'f System \<Rightarrow> 'f System" where
  "RemoveAllEvents event_type s = RemoveEvent event_type (MoveEvents s)"

section \<open>Advance\<close>

text \<open>A callback's calls, made in order on the CPU thread.\<close>

fun do_call :: "'f fpu \<Rightarrow> Call \<Rightarrow> 'f System \<Rightarrow> 'f System" where
  "do_call fp (CallScheduleEvent cycles_into_future event_type ud from) s =
     ScheduleEvent fp True cycles_into_future event_type ud from s"
| "do_call fp (CallRemoveEvent event_type) s = RemoveEvent event_type s"
| "do_call fp (CallRemoveAllEvents event_type) s = RemoveAllEvents event_type s"
| "do_call fp (CallForceExceptionCheck cycles) s = ForceExceptionCheck fp cycles s"

definition run_calls :: "'f fpu \<Rightarrow> Call list \<Rightarrow> 'f System \<Rightarrow> 'f System" where
  "run_calls fp calls s = fold (do_call fp) calls s"

text \<open>
  \<open>evt.type->callback(system, evt.userdata, g.global_timer - evt.time)\<close>. A null type or
  one that is not in the registry cannot be called: the result is \<open>None\<close>.
\<close>

definition invoke :: "'f fpu \<Rightarrow> Event \<Rightarrow> 'f System \<Rightarrow> 'f System option" where
  "invoke fp evt s =
     (case type evt of
        None \<Rightarrow> None
      | Some nm \<Rightarrow>
          (case event_types s nm of
             None \<Rightarrow> None
           | Some et \<Rightarrow> Some (run_calls fp (callback et (userdata evt) (global_timer s - time evt)) s)))"

text \<open>
  The loop of \<open>Advance\<close> that fires the due events. It need not end (a callback may
  schedule a due event each time it runs), so it runs on fuel: \<open>None\<close> is a pass that does
  not return. The events are returned in the order in which their callbacks were called.
\<close>

fun fire_loop :: "'f fpu \<Rightarrow> nat \<Rightarrow> 'f System \<Rightarrow> (Event list \<times> 'f System) option" where
  "fire_loop fp 0 s = None"
| "fire_loop fp (Suc n) s =
     (if event_queue s \<noteq> [] \<and> time (hd (event_queue s)) \<le>s global_timer s
      then
        let evt = hd (event_queue s);
            s1 = s\<lparr>event_queue := butlast (pop_heap (event_queue s))\<rparr>
        in (case invoke fp evt s1 of
              None \<Rightarrow> None
            | Some s2 \<Rightarrow>
                (case fire_loop fp n s2 of
                   None \<Rightarrow> None
                 | Some (fired, s3) \<Rightarrow> Some (evt # fired, s3)))
      else Some ([], s))"

text \<open>The part of \<open>Advance\<close> before the loop, and the part after it.\<close>

definition Advance_begin :: "'f fpu \<Rightarrow> 'f System \<Rightarrow> 'f System" where
  "Advance_begin fp s =
     (let s1 = MoveEvents s;
          cyclesExecuted = slice_length s1 - DowncountToCycles fp s1 (downcount s1)
      in s1\<lparr>global_timer := global_timer s1 + scast cyclesExecuted,
             last_oc_factor := config_oc_factor s1,
             last_OC_factor_inverted := config_oc_inv_factor s1,
             slice_length := MAX_SLICE_LENGTH,
             is_global_timer_sane := True\<rparr>)"

definition Advance_end :: "'f fpu \<Rightarrow> 'f System \<Rightarrow> 'f System" where
  "Advance_end fp s =
     (let s1 = s\<lparr>is_global_timer_sane := False\<rparr>;
          s2 = (if event_queue s1 \<noteq> []
                then s1\<lparr>slice_length :=
                          ucast (min_s64 (time (hd (event_queue s1)) - global_timer s1)
                                         (scast MAX_SLICE_LENGTH))\<rparr>
                else s1)
      in s2\<lparr>downcount := CyclesToDowncount fp s2 (slice_length s2)\<rparr>)"

definition Advance :: "'f fpu \<Rightarrow> nat \<Rightarrow> 'f System \<Rightarrow> (Event list \<times> 'f System) option" where
  "Advance fp fuel s =
     (case fire_loop fp fuel (Advance_begin fp s) of
        None \<Rightarrow> None
      | Some (fired, s') \<Rightarrow> Some (fired, Advance_end fp s'))"

section \<open>The other operations\<close>

text \<open>
  \<open>AdjustEventQueueTimes\<close>: the \<open>u32\<close> clocks are converted to \<open>s64\<close>; the product is divided
  with truncation towards zero. (An old clock of 0 is a division by zero in the source; here
  the quotient is 0.)
\<close>

definition AdjustEventQueueTimes :: "u32 \<Rightarrow> u32 \<Rightarrow> 'f System \<Rightarrow> 'f System" where
  "AdjustEventQueueTimes new_ppc_clock old_ppc_clock s =
     s\<lparr>event_queue :=
         map (\<lambda>ev. ev\<lparr>time := global_timer s +
                          s64_div ((time ev - global_timer s) * ucast new_ppc_clock) (ucast old_ppc_clock)\<rparr>)
             (event_queue s)\<rparr>"

definition Idle :: "'f fpu \<Rightarrow> 'f System \<Rightarrow> 'f System" where
  "Idle fp s =
     s\<lparr>idled_cycles := idled_cycles s + scast (DowncountToCycles fp s (downcount s)),
       downcount := 0\<rparr>"

section \<open>Loading a saved state\<close>

record SavedEvent =
  saved_time :: s64
  saved_fifo_order :: u64
  saved_userdata :: u64
  saved_name :: string

record 'f SavedState =
  saved_slice_length :: s32
  saved_global_timer :: s64
  saved_idled_cycles :: s64
  saved_fake_dec_start_value :: u32
  saved_fake_dec_start_ticks :: u64
  saved_fake_TB_start_value :: u64
  saved_fake_TB_start_ticks :: u64
  saved_last_oc_factor :: 'f
  saved_event_fifo_id :: u64
  saved_events :: "SavedEvent list"

text \<open>
  What the function given to \<open>DoEachElement\<close> does to one element in read mode: the three
  numbers are read, then the name, which is looked up in the registry.
\<close>

definition load_event :: "'f System \<Rightarrow> SavedEvent \<Rightarrow> Event" where
  "load_event s sv =
     \<lparr>time = saved_time sv, fifo_order = saved_fifo_order sv, userdata = saved_userdata sv,
      type = (case event_types s (saved_name sv) of
                Some et \<Rightarrow> Some (saved_name sv)
              | None \<Rightarrow> ev_lost s)\<rparr>"

text \<open>
  Modelled from the spec: \<open>PointerWrap::DoEachElement\<close> (Common/ChunkFile.h is not among the
  sources). The persisted events are "a length-prefixed sequence": in read mode the vector
  takes the stored length and every element is read by the function given.
\<close>

definition DoEachElement_read :: "('a \<Rightarrow> 'b) \<Rightarrow> 'a list \<Rightarrow> 'b list \<Rightarrow> 'b list" where
  "DoEachElement_read member stored container = map member stored"

text \<open>\<open>DoState\<close> in read mode, \<open>saved\<close> being what the \<open>PointerWrap\<close> holds.\<close>

definition DoState_read :: "'f fpu \<Rightarrow> 'f SavedState \<Rightarrow> 'f System \<Rightarrow> 'f System" where
  "DoState_read fp saved s =
     (let s1 = s\<lparr>slice_length := saved_slice_length saved,
                 global_timer := saved_global_timer saved,
                 idled_cycles := saved_idled_cycles saved,
                 fake_dec_start_value := saved_fake_dec_start_value saved,
                 fake_dec_start_ticks := saved_fake_dec_start_ticks saved,
                 fake_TB_start_value := saved_fake_TB_start_value saved,
                 fake_TB_start_ticks := saved_fake_TB_start_ticks saved,
                 last_oc_factor := saved_last_oc_factor saved,
                 last_OC_factor_inverted := float_recip fp (saved_last_oc_factor saved),
                 event_fifo_id := saved_event_fifo_id saved\<rparr>;
          s2 = MoveEvents s1;
          s3 = s2\<lparr>event_queue := DoEachElement_read (load_event s2) (saved_events saved) (event_queue s2)\<rparr>
      in s3\<lparr>event_queue := make_heap (event_queue s3)\<rparr>)"

section \<open>The steps of a run\<close>

text \<open>
  What happens in a run, step by step: an event is taken from the queue and its callback
  is called (\<open>Fired\<close>), or a function of the scheduler is called, by the program or by a
  callback, in the state given (\<open>Called\<close>). \<open>callback_calls\<close> are the calls that the callback
  of an event makes when the loop of \<open>Advance\<close> calls it in the state \<open>s\<close>; \<open>call_log\<close> lists
  the calls of a sequence with the state in which each of them is made; \<open>loop_log\<close> follows
  the loop of \<open>Advance\<close> for as long as the fuel lasts.
\<close>

datatype 'f Step = Fired Event | Called Call "'f System"

definition callback_calls :: "'f System \<Rightarrow> Event \<Rightarrow> Call list" where
  "callback_calls s evt =
     (case type evt of
        None \<Rightarrow> []
      | Some nm \<Rightarrow>
          (case event_types s nm of
             None \<Rightarrow> []
           | Some et \<Rightarrow> callback et (userdata evt) (global_timer s - time evt)))"

fun call_log :: "'f fpu \<Rightarrow> Call list \<Rightarrow> 'f System \<Rightarrow> 'f Step list" where
  "call_log fp [] s = []"
| "call_log fp (c # cs) s = Called c s # call_log fp cs (do_call fp c s)"

fun loop_log :: "'f fpu \<Rightarrow> nat \<Rightarrow> 'f System \<Rightarrow> 'f Step list" where
  "loop_log fp 0 s = []"
| "loop_log fp (Suc n) s =
     (if event_queue s \<noteq> [] \<and> time (hd (event_queue s)) \<le>s global_timer s
      then
        let evt = hd (event_queue s);
            s1 = s\<lparr>event_queue := butlast (pop_heap (event_queue s))\<rparr>
        in Fired evt # call_log fp (callback_calls s1 evt) s1 @
             (case invoke fp evt s1 of
                None \<Rightarrow> []
              | Some s2 \<Rightarrow> loop_log fp n s2)
      else [])"

fun fired_step :: "'f Step \<Rightarrow> Event option" where
  "fired_step (Fired e) = Some e"
| "fired_step (Called c st) = None"

fun call_step :: "'f Step \<Rightarrow> Call option" where
  "call_step (Fired e) = None"
| "call_step (Called c st) = Some c"

fun state_step :: "'f Step \<Rightarrow> 'f System option" where
  "state_step (Fired e) = None"
| "state_step (Called c st) = Some st"


text \<open>The step is a call that removes the event \<open>e\<close>, which is in the queue, by its type.\<close>

fun removes :: "Event \<Rightarrow> 'f Step \<Rightarrow> bool" where
  "removes e (Called (CallRemoveEvent t) st) \<longleftrightarrow> type e = t \<and> e \<in> set (event_queue st)"
| "removes e (Called (CallRemoveAllEvents t) st) \<longleftrightarrow> type e = t \<and> e \<in> set (event_queue st)"
| "removes e (Called (CallScheduleEvent d t ud f) st) \<longleftrightarrow> False"
| "removes e (Called (CallForceExceptionCheck d) st) \<longleftrightarrow> False"
| "removes e (Fired e') \<longleftrightarrow> False"

text \<open>
  The step is a call of \<open>ForceExceptionCheck\<close> that takes effect: fewer cycles are asked for
  than remain on the downcount. \<open>slice_in_range\<close>: the \<open>int\<close> subtraction it makes from
  \<open>slice_length\<close> does not overflow.
\<close>

fun shortens :: "'f fpu \<Rightarrow> 'f Step \<Rightarrow> bool" where
  "shortens fp (Called (CallForceExceptionCheck d) st) \<longleftrightarrow>
     max_s64 0 d <s scast (DowncountToCycles fp st (downcount st))"
| "shortens fp (Called (CallScheduleEvent d t ud f) st) \<longleftrightarrow> False"
| "shortens fp (Called (CallRemoveEvent t) st) \<longleftrightarrow> False"
| "shortens fp (Called (CallRemoveAllEvents t) st) \<longleftrightarrow> False"
| "shortens fp (Fired e) \<longleftrightarrow> False"

fun slice_in_range :: "'f fpu \<Rightarrow> 'f Step \<Rightarrow> bool" where
  "slice_in_range fp (Called (CallForceExceptionCheck d) st) \<longleftrightarrow>
     - (2 ^ 31) \<le> sint (slice_length st) -
        (sint (DowncountToCycles fp st (downcount st)) - sint (max_s64 0 d))"
| "slice_in_range fp (Called (CallScheduleEvent d t ud f) st) \<longleftrightarrow> True"
| "slice_in_range fp (Called (CallRemoveEvent t) st) \<longleftrightarrow> True"
| "slice_in_range fp (Called (CallRemoveAllEvents t) st) \<longleftrightarrow> True"
| "slice_in_range fp (Fired e) \<longleftrightarrow> True"


section \<open>Well-formed registries\<close>

text \<open>Every node's name pointer points at the node's own key, as \<open>RegisterEvent\<close> leaves it.\<close>

definition registry_ok :: "'f System \<Rightarrow> bool" where
  "registry_ok s \<longleftrightarrow> (\<forall>nm et. event_types s nm = Some et \<longrightarrow> name et = Some nm)"

section \<open>Concrete inputs\<close>

text \<open>
  The inputs at which the theorems are instantiated. \<open>exact_fpu\<close> calculates with
  rationals, without rounding, and truncates towards zero; with the factor 1 it is what
  the floating point unit computes.
\<close>

definition exact_fpu :: "rat fpu" where
  "exact_fpu =
     \<lparr>int_times_float = (\<lambda>i f. word_of_int (let x = of_int (sint i) * f in if 0 \<le> x then \<lfloor>x\<rfloor> else \<lceil>x\<rceil>)),
      float_recip = (\<lambda>f. 1 / f),
      float_one = 1\<rparr>"

definition default_config :: "rat Config" where
  "default_config = \<lparr>MAIN_OVERCLOCK_ENABLE = False, MAIN_OVERCLOCK = 1, MAIN_SYNC_ON_SKIP_IDLE = False\<rparr>"

definition blank_system :: "rat System" where
  "blank_system =
     \<lparr>global_timer = 0, slice_length = 0, fake_TB_start_value = 0, fake_TB_start_ticks = 0,
      last_OC_factor_inverted = 1, event_types = Map.empty, event_queue = [], event_fifo_id = 0,
      ts_queue = [], last_oc_factor = 1, idled_cycles = 0, fake_dec_start_value = 0,
      fake_dec_start_ticks = 0, is_global_timer_sane = False, ev_lost = None,
      config_oc_factor = 1, config_oc_inv_factor = 1, config_sync_on_skip_idle = False,
      downcount = 0\<rparr>"

definition booted :: "rat System" where
  "booted = Init exact_fpu default_config blank_system"

definition two_events :: "rat System" where
  "two_events = blank_system
     \<lparr>event_queue := [\<lparr>time = 10, fifo_order = 1, userdata = 2, type = Some ''A''\<rparr>,
                      \<lparr>time = 11, fifo_order = 0, userdata = 1, type = Some ''B''\<rparr>]\<rparr>"

definition rescheduler :: TimedCallback where
  "rescheduler ud late = [CallScheduleEvent 0 (Some ''A'') ud CPU]"

definition mid_slice :: "rat System" where
  "mid_slice = blank_system\<lparr>slice_length := 20000, downcount := 15000\<rparr>"

text \<open>No cycles are left on the downcount, inside the loop of \<open>Advance\<close>.\<close>

definition no_cycles_left :: "'f fpu \<Rightarrow> 'f System \<Rightarrow> bool" where
  "no_cycles_left fp s \<longleftrightarrow>
     is_global_timer_sane s \<and> sint (DowncountToCycles fp s (downcount s)) \<le> 0"

definition force_callback :: TimedCallback where
  "force_callback ud late = [CallForceExceptionCheck 0]"

definition forcing :: "rat System" where
  "forcing = ScheduleEvent exact_fpu True 0 (Some ''F'') 0 CPU (snd (RegisterEvent ''F'' force_callback booted))"

text \<open>Scenario 4 of the specification, after the state was loaded.\<close>

definition scenario4 :: "rat System" where
  "scenario4 =
     (snd (RegisterEvent ''B'' EmptyTimedCallback (snd (RegisterEvent ''A'' EmptyTimedCallback booted))))
       \<lparr>event_queue := [\<lparr>time = 100, fifo_order = 1, userdata = 0, type = Some ''A''\<rparr>,
                        \<lparr>time = 100, fifo_order = 2, userdata = 0, type = Some ''B''\<rparr>,
                        \<lparr>time = 200, fifo_order = 3, userdata = 0, type = Some ''A''\<rparr>],
         event_fifo_id := 4, global_timer := 50, downcount := 19940, is_global_timer_sane := False\<rparr>"

definition idle_boot :: "rat System" where
  "idle_boot = booted\<lparr>downcount := 0\<rparr>"

text \<open>The events of \<open>ts_queue\<close> as \<open>MoveEvents\<close> numbers them, from the counter \<open>k\<close> on.\<close>

primrec renumber :: "u64 \<Rightarrow> Event list \<Rightarrow> Event list" where
  "renumber k [] = []"
| "renumber k (ev # rest) = ev\<lparr>fifo_order := k\<rparr> # renumber (k + 1) rest"

definition saved4 :: "rat SavedState" where
  "saved4 =
     \<lparr>saved_slice_length = 20000, saved_global_timer = 50, saved_idled_cycles = 0,
      saved_fake_dec_start_value = 0, saved_fake_dec_start_ticks = 0,
      saved_fake_TB_start_value = 0, saved_fake_TB_start_ticks = 0,
      saved_last_oc_factor = 1, saved_event_fifo_id = 4,
      saved_events =
        [\<lparr>saved_time = 100, saved_fifo_order = 1, saved_userdata = 0, saved_name = ''A''\<rparr>,
         \<lparr>saved_time = 100, saved_fifo_order = 2, saved_userdata = 0, saved_name = ''B''\<rparr>,
         \<lparr>saved_time = 200, saved_fifo_order = 3, saved_userdata = 0, saved_name = ''A''\<rparr>]\<rparr>"

definition reader_without_B :: "rat System" where
  "reader_without_B = snd (RegisterEvent ''A'' EmptyTimedCallback booted)"

definition with_inbox :: "rat System" where
  "with_inbox = two_events
     \<lparr>ts_queue := [\<lparr>time = 5, fifo_order = 0, userdata = 9, type = Some ''B''\<rparr>,
                   \<lparr>time = 6, fifo_order = 0, userdata = 8, type = Some ''A''\<rparr>],
      event_fifo_id := 7\<rparr>"

definition booted_AB :: "rat System" where
  "booted_AB = snd (RegisterEvent ''B'' EmptyTimedCallback (snd (RegisterEvent ''A'' EmptyTimedCallback booted)))"

definition before_rescale :: "rat System" where
  "before_rescale =
     ScheduleEvent exact_fpu True 3 (Some ''A'') 0 CPU
       (ScheduleEvent exact_fpu True 4 (Some ''B'') 0 CPU booted_AB)"

section \<open>Conditions on the callbacks of a pass\<close>


text \<open>
  The callbacks of all events in the queue are quiet: they schedule nothing, drain nothing
  and do not remove the events of type \<open>t\<close>. Then the queue only shrinks, and the loop of
  \<open>Advance\<close> ends.
\<close>

definition quiet_call :: "EventTypePtr \<Rightarrow> Call \<Rightarrow> bool" where
  "quiet_call t c \<longleftrightarrow>
     (case c of
        CallScheduleEvent d t' ud f \<Rightarrow> False
      | CallRemoveEvent t' \<Rightarrow> t' \<noteq> t
      | CallRemoveAllEvents t' \<Rightarrow> False
      | CallForceExceptionCheck d \<Rightarrow> True)"

definition quiet_pending :: "EventTypePtr \<Rightarrow> 'f System \<Rightarrow> bool" where
  "quiet_pending t s \<longleftrightarrow>
     (\<forall>e\<in>set (event_queue s). \<exists>nm et. type e = Some nm \<and> event_types s nm = Some et \<and>
        (\<forall>ud late. \<forall>c\<in>set (callback et ud late). quiet_call t c))"

text \<open>
  The calls that the callback which made the call at position \<open>i\<close> of a log goes on to make:
  the calls that follow it up to the next event fired.
\<close>

definition rest_of_callback :: "'f Step list \<Rightarrow> nat \<Rightarrow> Call list" where
  "rest_of_callback L i =
     List.map_filter call_step (takeWhile (\<lambda>x. fired_step x = None) (drop (Suc i) L))"

section \<open>More concrete inputs\<close>

definition chain_callback :: TimedCallback where
  "chain_callback ud late = [CallScheduleEvent 0 (Some ''B'') ud CPU]"


definition cancel_callback :: TimedCallback where
  "cancel_callback ud late = [CallRemoveEvent (Some ''B'')]"

definition chained :: "rat System" where
  "chained =
     (snd (RegisterEvent ''B'' EmptyTimedCallback (snd (RegisterEvent ''A'' chain_callback booted))))
       \<lparr>downcount := 19850\<rparr>"

definition scenario1 :: "Call list" where
  "scenario1 =
     [CallScheduleEvent 100 (Some ''A'') 0 CPU,
      CallScheduleEvent 50 (Some ''B'') 1 CPU,
      CallScheduleEvent 100 (Some ''A'') 2 CPU]"


definition cancelled :: "rat System" where
  "cancelled =
     (ScheduleEvent exact_fpu True 100 (Some ''C'') 1 CPU
        (ScheduleEvent exact_fpu True 100 (Some ''A'') 0 CPU
           (snd (RegisterEvent ''C'' cancel_callback
              (snd (RegisterEvent ''B'' EmptyTimedCallback
                 (snd (RegisterEvent ''A'' chain_callback booted))))))))
       \<lparr>downcount := 19900\<rparr>"

definition periodic_callback :: TimedCallback where
  "periodic_callback ud late = [CallScheduleEvent 100 (Some ''D'') ud CPU]"

text \<open>
  A and D are due; the callback of A schedules B with delay 0, the callback of D schedules D
  again; C, whose callback removes the events of type B, is registered and never scheduled.
\<close>

definition busy :: "rat System" where
  "busy =
     (ScheduleEvent exact_fpu True 100 (Some ''D'') 1 CPU
        (ScheduleEvent exact_fpu True 100 (Some ''A'') 0 CPU
           (snd (RegisterEvent ''D'' periodic_callback
              (snd (RegisterEvent ''C'' cancel_callback
                 (snd (RegisterEvent ''B'' EmptyTimedCallback
                    (snd (RegisterEvent ''A'' chain_callback booted))))))))))
       \<lparr>downcount := 19900\<rparr>"

chapter \<open>Properties\<close>

section \<open>The order of events\<close>

lemma Event_greater_key: "Event_greater a b \<longleftrightarrow> ev_key b < ev_key a"
  by (auto simp: Event_greater_def ev_key_def word_sless_alt word_less_nat_alt less_prod_def)

lemma Event_less_key: "Event_less a b \<longleftrightarrow> ev_key a < ev_key b"
  by (auto simp: Event_less_def ev_key_def word_sless_alt word_less_nat_alt less_prod_def)

lemma not_Event_greater: "\<not> Event_greater a b \<longleftrightarrow> ev_key a \<le> ev_key b"
  by (simp add: Event_greater_key not_less)

section \<open>The heap algorithms\<close>

lemma is_heap_key:
  "is_heap xs \<longleftrightarrow> (\<forall>j<length xs. 0 < j \<longrightarrow> ev_key (xs ! parent j) \<le> ev_key (xs ! j))"
  by (auto simp: is_heap_def not_Event_greater)

lemma is_heap_from: "is_heap xs \<longleftrightarrow> heap_from 0 xs"
  by (simp add: is_heap_key heap_from_def)

lemma is_heap_Nil [simp]: "is_heap []"
  by (simp add: is_heap_def)

lemma is_heap_single [simp]: "is_heap [e]"
  by (simp add: is_heap_def)

lemma parent_less: "0 < j \<Longrightarrow> parent j < j"
  by (simp add: parent_def)

lemma parent_child: "0 < j \<Longrightarrow> parent j = i \<longleftrightarrow> j = 2 * i + 1 \<or> j = 2 * i + 2"
  unfolding parent_def by presburger

lemma parent_left: "parent (2 * i + 1) = i"
  unfolding parent_def by presburger

lemma parent_right: "parent (2 * i + 2) = i"
  unfolding parent_def by presburger

lemma length_swap [simp]: "length (swap xs i j) = length xs"
  by (simp add: swap_def)

lemma mset_swap_list: "i < length xs \<Longrightarrow> j < length xs \<Longrightarrow> mset (swap xs i j) = mset xs"
  by (simp add: swap_def mset_swap)

lemma nth_swap:
  "i < length xs \<Longrightarrow> j < length xs \<Longrightarrow>
   swap xs i j ! k = (if k = j then xs ! i else if k = i then xs ! j else xs ! k)"
  by (simp add: swap_def nth_list_update)

lemma length_sift_up [simp]: "length (sift_up xs i) = length xs"
  by (induction xs i rule: sift_up.induct) (subst sift_up.simps, simp)

lemma length_sift_down [simp]: "length (sift_down xs i) = length xs"
  by (induction xs i rule: sift_down.induct) (subst sift_down.simps, simp add: Let_def)

lemma mset_sift_up [simp]: "mset (sift_up xs i) = mset xs"
proof (induction xs i rule: sift_up.induct)
  case (1 xs i)
  show ?case
  proof (cases "i = 0 \<or> length xs \<le> i")
    case True
    then show ?thesis by (subst sift_up.simps) simp
  next
    case False
    then have "parent i < length xs" "i < length xs" using parent_less [of i] by auto
    with False 1 show ?thesis
      by (subst sift_up.simps) (simp add: mset_swap_list)
  qed
qed

lemma mset_sift_down [simp]: "mset (sift_down xs i) = mset xs"
proof (induction xs i rule: sift_down.induct)
  case (1 xs i)
  show ?case
  proof (cases "length xs \<le> 2 * i + 1")
    case True
    then show ?thesis by (subst sift_down.simps) simp
  next
    case False
    then have "i < length xs" "2 * i + 1 < length xs" by auto
    with False 1 show ?thesis
      by (subst sift_down.simps) (auto simp: mset_swap_list Let_def)
  qed
qed

subsection \<open>Moving an element down\<close>

lemma heap_but_down_leaf:
  assumes "heap_but_down l i xs" "length xs \<le> 2 * i + 1"
  shows "heap_from l xs"
  unfolding heap_from_def
proof (intro allI impI)
  fix j assume j: "j < length xs" "0 < j \<and> l \<le> parent j"
  have "parent j \<noteq> i" using assms(2) j parent_child [of j i] by auto
  with assms(1) j show "ev_key (xs ! parent j) \<le> ev_key (xs ! j)"
    by (simp add: heap_but_down_def)
qed

lemma heap_but_down_done:
  assumes inv: "heap_but_down l i xs"
    and l: "ev_key (xs ! i) \<le> ev_key (xs ! (2 * i + 1))"
    and r: "2 * i + 2 < length xs \<longrightarrow> ev_key (xs ! i) \<le> ev_key (xs ! (2 * i + 2))"
  shows "heap_from l xs"
  unfolding heap_from_def
proof (intro allI impI)
  fix j assume j: "j < length xs" "0 < j \<and> l \<le> parent j"
  show "ev_key (xs ! parent j) \<le> ev_key (xs ! j)"
  proof (cases "parent j = i")
    case True
    then have "j = 2 * i + 1 \<or> j = 2 * i + 2" using j parent_child [of j i] by blast
    then show ?thesis
    proof
      assume "j = 2 * i + 1" then show ?thesis using l True by simp
    next
      assume "j = 2 * i + 2" then show ?thesis using r True j by simp
    qed
  next
    case False
    with inv j show ?thesis by (simp add: heap_but_down_def)
  qed
qed

lemma heap_but_down_swap:
  assumes inv: "heap_but_down l i xs"
    and li: "l \<le> i"
    and c: "c = 2 * i + 1 \<or> c = 2 * i + 2" "c < length xs"
    and lt: "ev_key (xs ! c) < ev_key (xs ! i)"
    and least: "\<And>j. j < length xs \<Longrightarrow> 0 < j \<Longrightarrow> parent j = i \<Longrightarrow> ev_key (xs ! c) \<le> ev_key (xs ! j)"
  shows "heap_but_down l c (swap xs i c)"
proof -
  have ic: "i < c" "i < length xs" "0 < c" using c by auto
  have pc: "parent c = i" using c parent_left parent_right by auto
  let ?ys = "swap xs i c"
  have ys: "\<And>k. ?ys ! k = (if k = c then xs ! i else if k = i then xs ! c else xs ! k)"
    using ic c by (simp add: nth_swap)
  have old: "\<And>j. j < length xs \<Longrightarrow> 0 < j \<Longrightarrow> l \<le> parent j \<Longrightarrow> parent j \<noteq> i
      \<Longrightarrow> ev_key (xs ! parent j) \<le> ev_key (xs ! j)"
    using inv by (simp add: heap_but_down_def)
  have gp: "\<And>j. 0 < i \<Longrightarrow> l \<le> parent i \<Longrightarrow> j < length xs \<Longrightarrow> 0 < j \<Longrightarrow> parent j = i
      \<Longrightarrow> ev_key (xs ! parent i) \<le> ev_key (xs ! j)"
    using inv by (simp add: heap_but_down_def)
  have p1: "ev_key (?ys ! parent j) \<le> ev_key (?ys ! j)"
    if j: "j < length xs" "0 < j" "l \<le> parent j" "parent j \<noteq> c" for j
  proof (cases "parent j = i")
    case True
    have ji: "j \<noteq> i" using True parent_less [OF j(2)] by auto
    show ?thesis
    proof (cases "j = c")
      case True
      with ic lt pc show ?thesis by (simp add: ys)
    next
      case False
      have "ev_key (xs ! c) \<le> ev_key (xs ! j)" using least [OF j(1) j(2) True] .
      with False True ji ic show ?thesis by (simp add: ys)
    qed
  next
    case False
    have jc: "j \<noteq> c" using False pc by auto
    show ?thesis
    proof (cases "j = i")
      case True
      have "parent i \<noteq> i" using parent_less [of i] j True by auto
      moreover have "ev_key (xs ! parent i) \<le> ev_key (xs ! c)"
        using gp [of c] j True ic c pc by simp
      ultimately show ?thesis using True j ic by (simp add: ys)
    next
      case ji: False
      have "ev_key (xs ! parent j) \<le> ev_key (xs ! j)" using old [OF j(1) j(2) j(3) False] .
      with jc ji j False show ?thesis by (simp add: ys)
    qed
  qed
  have p2: "ev_key (?ys ! parent c) \<le> ev_key (?ys ! j)"
    if j: "j < length xs" "0 < j" "parent j = c" for j
  proof -
    have "c < j" using parent_less [OF j(2)] j(3) by simp
    then have "j \<noteq> c" "j \<noteq> i" using ic by auto
    moreover have "ev_key (xs ! c) \<le> ev_key (xs ! j)"
      using old [of j] j ic li by simp
    ultimately show ?thesis using ic pc by (simp add: ys)
  qed
  show ?thesis
    unfolding heap_but_down_def using p1 p2 by simp
qed

lemma sift_down_heap:
  "heap_but_down l i xs \<Longrightarrow> l \<le> i \<Longrightarrow> heap_from l (sift_down xs i)"
proof (induction xs i rule: sift_down.induct)
  case (1 xs i)
  show ?case
  proof (cases "length xs \<le> 2 * i + 1")
    case True
    with 1 show ?thesis by (subst sift_down.simps) (simp add: heap_but_down_leaf)
  next
    case False
    define c where "c = (if 2 * i + 2 < length xs \<and> Event_greater (xs ! (2 * i + 1)) (xs ! (2 * i + 2))
                 then 2 * i + 2 else 2 * i + 1)"
    have c: "c = 2 * i + 1 \<or> c = 2 * i + 2" "c < length xs"
      using False by (auto simp: c_def)
    have cl: "ev_key (xs ! c) \<le> ev_key (xs ! (2 * i + 1))"
      by (auto simp: c_def Event_greater_key)
    have cr: "2 * i + 2 < length xs \<Longrightarrow> ev_key (xs ! c) \<le> ev_key (xs ! (2 * i + 2))"
      by (auto simp: c_def Event_greater_key not_less)
    have least: "ev_key (xs ! c) \<le> ev_key (xs ! j)"
      if j: "j < length xs" "0 < j" "parent j = i" for j
    proof -
      have "j = 2 * i + 1 \<or> j = 2 * i + 2" using j parent_child [of j i] by blast
      then show ?thesis using cl cr j by auto
    qed
    have unfold: "sift_down xs i = (if Event_greater (xs ! i) (xs ! c) then sift_down (swap xs i c) c else xs)"
      using False by (subst sift_down.simps) (simp add: c_def Let_def)
    show ?thesis
    proof (cases "Event_greater (xs ! i) (xs ! c)")
      case True
      then have lt: "ev_key (xs ! c) < ev_key (xs ! i)" by (simp add: Event_greater_key)
      have "heap_but_down l c (swap xs i c)"
        using heap_but_down_swap [OF "1.prems"(1) "1.prems"(2) c lt least] .
      moreover have "l \<le> c" using c "1.prems"(2) by auto
      ultimately have "heap_from l (sift_down (swap xs i c) c)"
        using "1.IH" [OF False c_def True] by simp
      with True show ?thesis by (simp add: unfold)
    next
      case nogt: False
      then have le: "ev_key (xs ! i) \<le> ev_key (xs ! c)" by (simp add: not_Event_greater)
      have l: "ev_key (xs ! i) \<le> ev_key (xs ! (2 * i + 1))"
        using le cl by (rule order_trans)
      have r: "2 * i + 2 < length xs \<longrightarrow> ev_key (xs ! i) \<le> ev_key (xs ! (2 * i + 2))"
        using le cr by (auto intro: order_trans)
      have "heap_from l xs" using heap_but_down_done [OF "1.prems"(1) l r] .
      with nogt show ?thesis by (simp add: unfold)
    qed
  qed
qed

subsection \<open>Moving an element up\<close>

lemma heap_but_up_swap:
  assumes inv: "heap_but_up i xs"
    and i: "0 < i" "i < length xs"
    and lt: "ev_key (xs ! i) < ev_key (xs ! parent i)"
  shows "heap_but_up (parent i) (swap xs (parent i) i)"
proof -
  define p where "p = parent i"
  have pi: "p < i" "p < length xs" using i parent_less [of i] by (auto simp: p_def)
  have lt': "ev_key (xs ! i) < ev_key (xs ! p)" using lt by (simp add: p_def)
  let ?ys = "swap xs p i"
  have ys: "\<And>k. ?ys ! k = (if k = i then xs ! p else if k = p then xs ! i else xs ! k)"
    using pi i by (simp add: nth_swap)
  have old: "\<And>j. j < length xs \<Longrightarrow> 0 < j \<Longrightarrow> j \<noteq> i
      \<Longrightarrow> ev_key (xs ! parent j) \<le> ev_key (xs ! j)"
    using inv by (simp add: heap_but_up_def)
  have gp: "\<And>j. j < length xs \<Longrightarrow> 0 < j \<Longrightarrow> parent j = i
      \<Longrightarrow> ev_key (xs ! p) \<le> ev_key (xs ! j)"
    using inv i by (simp add: heap_but_up_def p_def)
  have p1: "ev_key (?ys ! parent j) \<le> ev_key (?ys ! j)"
    if j: "j < length xs" "0 < j" "j \<noteq> p" for j
  proof (cases "j = i")
    case True
    with lt' pi show ?thesis by (simp add: ys p_def [symmetric])
  next
    case ji: False
    show ?thesis
    proof (cases "parent j = i")
      case True
      then have "parent j \<noteq> p" using pi by simp
      with True ji j gp [of j] show ?thesis by (simp add: ys)
    next
      case ni: False
      show ?thesis
      proof (cases "parent j = p")
        case True
        have "ev_key (xs ! p) \<le> ev_key (xs ! j)"
          using old [of j] j ji True by simp
        with lt' have "ev_key (xs ! i) \<le> ev_key (xs ! j)" by simp
        with True ji j pi show ?thesis by (simp add: ys)
      next
        case False
        with ni ji j old [of j] show ?thesis by (simp add: ys)
      qed
    qed
  qed
  have p2: "ev_key (?ys ! parent p) \<le> ev_key (?ys ! j)"
    if j: "j < length xs" "0 < j" "parent j = p" "0 < p" for j
  proof -
    have "parent p < p" using parent_less j by simp
    then have pp: "parent p \<noteq> p" "parent p \<noteq> i" using pi by auto
    have top: "ev_key (xs ! parent p) \<le> ev_key (xs ! p)"
      using old [of p] pi j by simp
    have jp: "j \<noteq> p" using j parent_less [of j] by auto
    show ?thesis
    proof (cases "j = i")
      case True
      with top pp show ?thesis by (simp add: ys)
    next
      case False
      have "ev_key (xs ! p) \<le> ev_key (xs ! j)" using old [of j] j False by simp
      with top have "ev_key (xs ! parent p) \<le> ev_key (xs ! j)" by (rule order_trans)
      with False jp pp show ?thesis by (simp add: ys)
    qed
  qed
  show ?thesis
    unfolding heap_but_up_def p_def [symmetric] using p1 p2 by simp
qed

lemma heap_but_up_done:
  assumes "heap_but_up i xs" "i = 0 \<or> length xs \<le> i \<or> ev_key (xs ! parent i) \<le> ev_key (xs ! i)"
  shows "is_heap xs"
  unfolding is_heap_key
proof (intro allI impI)
  fix j assume "j < length xs" "0 < j"
  with assms show "ev_key (xs ! parent j) \<le> ev_key (xs ! j)"
    by (cases "j = i") (auto simp: heap_but_up_def)
qed

lemma sift_up_heap: "heap_but_up i xs \<Longrightarrow> is_heap (sift_up xs i)"
proof (induction xs i rule: sift_up.induct)
  case (1 xs i)
  show ?case
  proof (cases "i = 0 \<or> length xs \<le> i")
    case True
    then have "is_heap xs" using "1.prems" by (intro heap_but_up_done [of i]) auto
    with True show ?thesis by (subst sift_up.simps) simp
  next
    case False
    show ?thesis
    proof (cases "Event_greater (xs ! parent i) (xs ! i)")
      case True
      then have "ev_key (xs ! i) < ev_key (xs ! parent i)" by (simp add: Event_greater_key)
      with False "1.prems" have "heap_but_up (parent i) (swap xs (parent i) i)"
        by (intro heap_but_up_swap) auto
      with "1.IH" [OF False True] False True show ?thesis
        by (subst sift_up.simps) simp
    next
      case nogt: False
      then have "is_heap xs" using "1.prems" by (intro heap_but_up_done) (auto simp: not_Event_greater)
      with False nogt show ?thesis by (subst sift_up.simps) simp
    qed
  qed
qed

subsection \<open>push_heap, pop_heap and make_heap\<close>

lemma mset_push_heap [simp]: "mset (push_heap xs) = mset xs"
  by (simp add: push_heap_def)

lemma length_push_heap [simp]: "length (push_heap xs) = length xs"
  by (simp add: push_heap_def)

lemma set_push_heap [simp]: "set (push_heap xs) = set xs"
  using mset_push_heap [of xs] by (metis set_mset_mset)

lemma is_heap_push_heap:
  assumes "is_heap xs"
  shows "is_heap (push_heap (xs @ [e]))"
proof -
  have "heap_but_up (length xs) (xs @ [e])"
    unfolding heap_but_up_def
  proof (intro conjI allI impI)
    fix j assume j: "j < length (xs @ [e])" "0 < j \<and> j \<noteq> length xs"
    then have "j < length xs" by simp
    moreover have "parent j < length xs" using j parent_less [of j] by simp
    ultimately show "ev_key ((xs @ [e]) ! parent j) \<le> ev_key ((xs @ [e]) ! j)"
      using assms j by (simp add: is_heap_key nth_append)
  next
    fix j assume "0 < length xs" "j < length (xs @ [e])" "0 < j \<and> parent j = length xs"
    then have False using parent_less [of j] by simp
    then show "ev_key ((xs @ [e]) ! parent (length xs)) \<le> ev_key ((xs @ [e]) ! j)" ..
  qed
  then show ?thesis by (simp add: push_heap_def sift_up_heap)
qed

lemma is_heap_least:
  assumes "is_heap xs" "j < length xs"
  shows "ev_key (xs ! 0) \<le> ev_key (xs ! j)"
  using assms(2)
proof (induction j rule: less_induct)
  case (less j)
  show ?case
  proof (cases "j = 0")
    case True
    then show ?thesis by simp
  next
    case False
    then have pj: "parent j < j" by (simp add: parent_less)
    with less.prems have "ev_key (xs ! 0) \<le> ev_key (xs ! parent j)"
      by (intro less.IH) auto
    moreover have "ev_key (xs ! parent j) \<le> ev_key (xs ! j)"
      using assms(1) less.prems False by (simp add: is_heap_key)
    ultimately show ?thesis by (rule order_trans)
  qed
qed

lemma is_heap_hd_least:
  assumes "is_heap xs" "e \<in> set xs"
  shows "ev_key (hd xs) \<le> ev_key e"
proof -
  from assms(2) obtain j where "j < length xs" "xs ! j = e" by (auto simp: in_set_conv_nth)
  moreover from assms(2) have "hd xs = xs ! 0" by (cases xs) auto
  ultimately show ?thesis using is_heap_least [OF assms(1), of j] by simp
qed

lemma pop_heap_short: "length xs \<le> 1 \<Longrightarrow> butlast (pop_heap xs) = []"
  by (cases xs) (auto simp: pop_heap_def)

lemma pop_heap_long:
  "1 < length xs \<Longrightarrow> butlast (pop_heap xs) = sift_down (butlast (swap xs 0 (length xs - Suc 0))) 0"
  by (simp add: pop_heap_def)

lemma length_pop_heap [simp]: "length (pop_heap xs) = length xs"
  by (auto simp: pop_heap_def)

lemma last_pop_heap: "xs \<noteq> [] \<Longrightarrow> last (pop_heap xs) = hd xs"
  by (cases xs) (auto simp: pop_heap_def)

lemma mset_butlast_pop_heap:
  assumes "xs \<noteq> []"
  shows "add_mset (hd xs) (mset (butlast (pop_heap xs))) = mset xs"
proof (cases "1 < length xs")
  case False
  with assms obtain x where "xs = [x]" by (cases xs) auto
  then show ?thesis by (simp add: pop_heap_def)
next
  case True
  let ?sw = "swap xs 0 (length xs - Suc 0)"
  have b: "0 < length xs" "length xs - Suc 0 < length xs" using True by auto
  have ne: "?sw \<noteq> []" using assms by (metis length_0_conv length_swap)
  have "last ?sw = ?sw ! (length xs - Suc 0)" using ne by (simp add: last_conv_nth)
  also have "\<dots> = xs ! 0" by (subst nth_swap [OF b]) simp
  also have "\<dots> = hd xs" using assms by (simp add: hd_conv_nth)
  finally have l: "last ?sw = hd xs" .
  have "mset ?sw = mset xs" by (rule mset_swap_list [OF b])
  moreover have "mset (butlast ?sw @ [last ?sw]) = mset ?sw"
    using ne by simp
  ultimately show ?thesis using l True by (simp add: pop_heap_long)
qed

lemma is_heap_butlast_pop_heap:
  assumes "is_heap xs"
  shows "is_heap (butlast (pop_heap xs))"
proof (cases "1 < length xs")
  case False
  then show ?thesis by (simp add: pop_heap_short)
next
  case True
  let ?ys = "butlast (swap xs 0 (length xs - Suc 0))"
  have b: "0 < length xs" "length xs - Suc 0 < length xs" using True by auto
  have ys: "?ys ! k = xs ! k" if "0 < k" "k < length xs - Suc 0" for k
  proof -
    have "?ys ! k = swap xs 0 (length xs - Suc 0) ! k" using that by (simp add: nth_butlast)
    also have "\<dots> = xs ! k" using that by (subst nth_swap [OF b]) simp
    finally show ?thesis .
  qed
  have "heap_but_down 0 0 ?ys"
    unfolding heap_but_down_def
  proof (intro conjI allI impI)
    fix j assume j: "j < length ?ys" "0 < j \<and> 0 \<le> parent j \<and> parent j \<noteq> 0"
    then have pj: "0 < parent j" "parent j < length xs - Suc 0" using parent_less [of j] by auto
    have j': "0 < j" "j < length xs - Suc 0" using j by auto
    have "ev_key (xs ! parent j) \<le> ev_key (xs ! j)"
      using assms j by (simp add: is_heap_key)
    then show "ev_key (?ys ! parent j) \<le> ev_key (?ys ! j)"
      by (simp only: ys [OF pj] ys [OF j'])
  next
    fix j assume "0 < (0::nat) \<and> 0 \<le> parent 0"
    then show "ev_key (?ys ! parent 0) \<le> ev_key (?ys ! j)" by simp
  qed
  then have "heap_from 0 (sift_down ?ys 0)" by (rule sift_down_heap) simp
  then show ?thesis using True by (simp add: pop_heap_long is_heap_from)
qed

lemma heap_from_half: "heap_from (length xs div 2) xs"
  unfolding heap_from_def parent_def
proof (intro allI impI)
  fix j assume "j < length xs" "0 < j \<and> length xs div 2 \<le> (j - 1) div 2"
  then have False by presburger
  then show "ev_key (xs ! ((j - 1) div 2)) \<le> ev_key (xs ! j)" ..
qed

lemma heap_from_Suc:
  assumes "heap_from (Suc k) xs"
  shows "heap_but_down k k xs"
  unfolding heap_but_down_def
proof (intro conjI allI impI)
  fix j assume "j < length xs" "0 < j \<and> k \<le> parent j \<and> parent j \<noteq> k"
  then show "ev_key (xs ! parent j) \<le> ev_key (xs ! j)"
    using assms by (simp add: heap_from_def)
next
  fix j assume "0 < k \<and> k \<le> parent k"
  then have False using parent_less [of k] by simp
  then show "ev_key (xs ! parent k) \<le> ev_key (xs ! j)" ..
qed

lemma fold_sift_down_heap:
  "heap_from k xs \<Longrightarrow> is_heap (fold (\<lambda>i ys. sift_down ys i) (rev [0..<k]) xs)"
proof (induction k arbitrary: xs)
  case 0
  then show ?case by (simp add: is_heap_from)
next
  case (Suc k)
  have "heap_from k (sift_down xs k)"
    using heap_from_Suc [OF Suc.prems] by (rule sift_down_heap) simp
  then show ?case using Suc.IH by simp
qed

lemma mset_fold_sift_down: "mset (fold (\<lambda>i ys. sift_down ys i) is xs) = mset xs"
  by (induction "is" arbitrary: xs) auto

lemma is_heap_make_heap: "is_heap (make_heap xs)"
  unfolding make_heap_def by (rule fold_sift_down_heap) (rule heap_from_half)

lemma mset_make_heap [simp]: "mset (make_heap xs) = mset xs"
  by (simp add: make_heap_def mset_fold_sift_down)

lemma set_make_heap [simp]: "set (make_heap xs) = set xs"
  using mset_make_heap [of xs] by (metis set_mset_mset)

lemma length_make_heap [simp]: "length (make_heap xs) = length xs"
  using mset_make_heap [of xs] by (metis size_mset)

section \<open>What each operation leaves alone, and the heap property\<close>

lemma ForceExceptionCheck_frame [simp]:
  "event_queue (ForceExceptionCheck fp c s) = event_queue s"
  "event_fifo_id (ForceExceptionCheck fp c s) = event_fifo_id s"
  "ts_queue (ForceExceptionCheck fp c s) = ts_queue s"
  "event_types (ForceExceptionCheck fp c s) = event_types s"
  "global_timer (ForceExceptionCheck fp c s) = global_timer s"
  "is_global_timer_sane (ForceExceptionCheck fp c s) = is_global_timer_sane s"
  "ev_lost (ForceExceptionCheck fp c s) = ev_lost s"
  by (simp_all add: ForceExceptionCheck_def Let_def)

lemma ScheduleEvent_frame [simp]:
  "event_types (ScheduleEvent fp ic d t u f s) = event_types s"
  "global_timer (ScheduleEvent fp ic d t u f s) = global_timer s"
  "is_global_timer_sane (ScheduleEvent fp ic d t u f s) = is_global_timer_sane s"
  "ev_lost (ScheduleEvent fp ic d t u f s) = ev_lost s"
  by (simp_all add: ScheduleEvent_def Let_def)

lemma is_heap_ScheduleEvent:
  "is_heap (event_queue s) \<Longrightarrow> is_heap (event_queue (ScheduleEvent fp ic d t u f s))"
  by (simp add: ScheduleEvent_def Let_def is_heap_push_heap)

lemma set_queue_ScheduleEvent:
  "set (event_queue s) \<subseteq> set (event_queue (ScheduleEvent fp ic d t u f s))"
  by (auto simp: ScheduleEvent_def Let_def)

lemma ScheduleEvent_sane:
  assumes "is_global_timer_sane s" "f = CPU \<or> (f = ANY \<and> ic)"
  shows "ScheduleEvent fp ic d t u f s =
           s\<lparr>event_queue := push_heap (event_queue s @
                [\<lparr>time = global_timer s + d, fifo_order = event_fifo_id s, userdata = u, type = t\<rparr>]),
             event_fifo_id := event_fifo_id s + 1\<rparr>"
  using assms by (auto simp: ScheduleEvent_def Let_def GetTicks_def)

lemma move_each_frame [simp]:
  "event_types (move_each evs s) = event_types s"
  "global_timer (move_each evs s) = global_timer s"
  "is_global_timer_sane (move_each evs s) = is_global_timer_sane s"
  "ev_lost (move_each evs s) = ev_lost s"
  "ts_queue (move_each evs s) = ts_queue s"
  "slice_length (move_each evs s) = slice_length s"
  "downcount (move_each evs s) = downcount s"
  by (induction evs arbitrary: s; simp)+

lemma is_heap_move_each:
  "is_heap (event_queue s) \<Longrightarrow> is_heap (event_queue (move_each evs s))"
  by (induction evs arbitrary: s) (simp_all add: is_heap_push_heap)

lemma set_queue_move_each: "set (event_queue s) \<subseteq> set (event_queue (move_each evs s))"
proof (induction evs arbitrary: s)
  case Nil
  then show ?case by simp
next
  case (Cons ev evs)
  have "set (event_queue s) \<subseteq> set (event_queue (s\<lparr>event_queue := push_heap (event_queue s @ [ev\<lparr>fifo_order := event_fifo_id s\<rparr>]),
          event_fifo_id := event_fifo_id s + 1\<rparr>))" by auto
  also have "\<dots> \<subseteq> set (event_queue (move_each (ev # evs) s))"
    by (simp only: move_each.simps) (rule Cons.IH)
  finally show ?case .
qed

lemma MoveEvents_frame [simp]:
  "event_types (MoveEvents s) = event_types s"
  "global_timer (MoveEvents s) = global_timer s"
  "is_global_timer_sane (MoveEvents s) = is_global_timer_sane s"
  "ev_lost (MoveEvents s) = ev_lost s"
  "ts_queue (MoveEvents s) = []"
  "slice_length (MoveEvents s) = slice_length s"
  "downcount (MoveEvents s) = downcount s"
  by (simp_all add: MoveEvents_def)

lemma is_heap_MoveEvents:
  "is_heap (event_queue s) \<Longrightarrow> is_heap (event_queue (MoveEvents s))"
  by (simp add: MoveEvents_def is_heap_move_each)

lemma set_queue_MoveEvents: "set (event_queue s) \<subseteq> set (event_queue (MoveEvents s))"
  using set_queue_move_each [of "s\<lparr>ts_queue := []\<rparr>" "ts_queue s"] by (simp add: MoveEvents_def)

lemma RemoveEvent_frame_fields [simp]:
  "event_types (RemoveEvent t s) = event_types s"
  "global_timer (RemoveEvent t s) = global_timer s"
  "is_global_timer_sane (RemoveEvent t s) = is_global_timer_sane s"
  "ev_lost (RemoveEvent t s) = ev_lost s"
  "ts_queue (RemoveEvent t s) = ts_queue s"
  "event_fifo_id (RemoveEvent t s) = event_fifo_id s"
  by (simp_all add: RemoveEvent_def Let_def)

lemma filter_same_length: "length (filter P xs) = length xs \<Longrightarrow> filter P xs = xs"
  by (metis filter_True length_filter_le length_filter_less not_less)

lemma mset_queue_RemoveEvent:
  "mset (event_queue (RemoveEvent t s)) = filter_mset (\<lambda>e. type e \<noteq> t) (mset (event_queue s))"
proof (cases "length (filter (\<lambda>e. type e \<noteq> t) (event_queue s)) = length (event_queue s)")
  case True
  then have "filter (\<lambda>e. type e \<noteq> t) (event_queue s) = event_queue s"
    by (rule filter_same_length)
  then have "mset (event_queue s) = filter_mset (\<lambda>e. type e \<noteq> t) (mset (event_queue s))"
    by (metis mset_filter)
  with True show ?thesis by (simp add: RemoveEvent_def Let_def)
next
  case False
  then show ?thesis by (simp add: RemoveEvent_def Let_def)
qed

lemma set_queue_RemoveEvent:
  "set (event_queue (RemoveEvent t s)) = {e \<in> set (event_queue s). type e \<noteq> t}"
  using mset_queue_RemoveEvent [of t s, THEN arg_cong, of set_mset] by auto

lemma RemoveEvent_none:
  "\<forall>e\<in>set (event_queue s). type e \<noteq> t \<Longrightarrow> RemoveEvent t s = s"
  by (simp add: RemoveEvent_def Let_def)

lemma is_heap_RemoveEvent:
  "is_heap (event_queue s) \<Longrightarrow> is_heap (event_queue (RemoveEvent t s))"
  by (simp add: RemoveEvent_def Let_def is_heap_make_heap)

lemma RemoveAllEvents_frame [simp]:
  "event_types (RemoveAllEvents t s) = event_types s"
  "global_timer (RemoveAllEvents t s) = global_timer s"
  "is_global_timer_sane (RemoveAllEvents t s) = is_global_timer_sane s"
  "ev_lost (RemoveAllEvents t s) = ev_lost s"
  "ts_queue (RemoveAllEvents t s) = []"
  by (simp_all add: RemoveAllEvents_def)

lemma is_heap_RemoveAllEvents:
  "is_heap (event_queue s) \<Longrightarrow> is_heap (event_queue (RemoveAllEvents t s))"
  by (simp add: RemoveAllEvents_def is_heap_RemoveEvent is_heap_MoveEvents)

lemma do_call_frame [simp]:
  "event_types (do_call fp c s) = event_types s"
  "global_timer (do_call fp c s) = global_timer s"
  "is_global_timer_sane (do_call fp c s) = is_global_timer_sane s"
  "ev_lost (do_call fp c s) = ev_lost s"
  by (cases c; simp)+

lemma is_heap_do_call:
  "is_heap (event_queue s) \<Longrightarrow> is_heap (event_queue (do_call fp c s))"
  by (cases c) (simp_all add: is_heap_ScheduleEvent is_heap_RemoveEvent is_heap_RemoveAllEvents)

lemma run_calls_frame [simp]:
  "event_types (run_calls fp cs s) = event_types s"
  "global_timer (run_calls fp cs s) = global_timer s"
  "is_global_timer_sane (run_calls fp cs s) = is_global_timer_sane s"
  "ev_lost (run_calls fp cs s) = ev_lost s"
  unfolding run_calls_def by (induction cs arbitrary: s; simp)+

lemma is_heap_run_calls:
  "is_heap (event_queue s) \<Longrightarrow> is_heap (event_queue (run_calls fp cs s))"
  unfolding run_calls_def by (induction cs arbitrary: s) (simp_all add: is_heap_do_call)

lemma invoke_frame:
  assumes "invoke fp evt s = Some s'"
  shows "event_types s' = event_types s" "global_timer s' = global_timer s"
    "is_global_timer_sane s' = is_global_timer_sane s" "ev_lost s' = ev_lost s"
  using assms by (auto simp: invoke_def split: option.splits)

lemma is_heap_invoke:
  "invoke fp evt s = Some s' \<Longrightarrow> is_heap (event_queue s) \<Longrightarrow> is_heap (event_queue s')"
  by (auto simp: invoke_def is_heap_run_calls split: option.splits)

section \<open>The registry\<close>

lemma registry_ok_RegisterEvent:
  "registry_ok s \<Longrightarrow> registry_ok (snd (RegisterEvent nm cb s))"
  by (auto simp: registry_ok_def RegisterEvent_def Let_def split: option.splits)

lemma registry_ok_Init: "registry_ok s \<Longrightarrow> registry_ok (Init fp cfg s)"
  by (auto simp: registry_ok_def Init_def RefreshConfig_def RegisterEvent_def Let_def split: option.splits if_splits)

lemma registry_ok_UnregisterAllEvents: "registry_ok (UnregisterAllEvents s)"
  by (simp add: registry_ok_def UnregisterAllEvents_def)

lemma registry_ok_booted: "registry_ok booted"
  unfolding booted_def by (rule registry_ok_Init) (simp add: registry_ok_def blank_system_def)

lemma event_types_booted:
  "event_types booted =
     [''_lost_event'' \<mapsto> \<lparr>callback = EmptyTimedCallback, name = Some ''_lost_event''\<rparr>]"
  by (simp add: booted_def Init_def RefreshConfig_def RegisterEvent_def blank_system_def Let_def)

text \<open>
  C10. When \<open>RegisterEvent\<close> is called with a name that is already in the registry, and
  goes on after the assertion, the state is unchanged: the handle returned is the one of the
  entry that is there, and that entry keeps its callback; the callback given is dropped.
  The registry is one built by \<open>RegisterEvent\<close> (\<open>registry_ok\<close>).
\<close>

theorem RegisterEvent_duplicate:
  assumes "registry_ok s" "event_types s nm = Some et"
  shows "RegisterEvent nm cb s = (Some nm, s) \<and>
         map_option callback (event_types (snd (RegisterEvent nm cb s)) nm) = Some (callback et)"
proof -
  have "name et = Some nm" using assms by (simp add: registry_ok_def)
  then have "et\<lparr>name := Some nm\<rparr> = et" by simp
  moreover have "(event_types s)(nm \<mapsto> et) = event_types s"
    using assms(2) by (simp add: fun_upd_idem)
  ultimately show ?thesis using assms(2) by (simp add: RegisterEvent_def)
qed

theorem RegisterEvent_duplicate_witness:
  "RegisterEvent ''_lost_event'' rescheduler booted = (Some ''_lost_event'', booted) \<and>
   map_option callback (event_types (snd (RegisterEvent ''_lost_event'' rescheduler booted)) ''_lost_event'')
     = Some EmptyTimedCallback"
proof -
  have reg: "event_types booted ''_lost_event'' = Some \<lparr>callback = EmptyTimedCallback, name = Some ''_lost_event''\<rparr>"
    by (simp add: event_types_booted)
  from RegisterEvent_duplicate [OF registry_ok_booted reg, of rescheduler] show ?thesis
    by (simp add: reg)
qed

section \<open>RemoveEvent\<close>

text \<open>
  C9. When no event of the queue has the type given, \<open>RemoveEvent\<close> leaves the state, and
  so the array of the queue, exactly as it is. In every state, the events of the queue
  after \<open>RemoveEvent\<close> are the events of other types of the queue before it, each with its
  time, sequence number and userdata.
\<close>

theorem RemoveEvent_frame:
  "((\<forall>e\<in>set (event_queue s). type e \<noteq> t) \<longrightarrow> RemoveEvent t s = s) \<and>
   mset (event_queue (RemoveEvent t s)) = filter_mset (\<lambda>e. type e \<noteq> t) (mset (event_queue s))"
  by (simp add: RemoveEvent_none mset_queue_RemoveEvent)

theorem RemoveEvent_frame_witness:
  "RemoveEvent (Some ''C'') two_events = two_events \<and>
   mset (event_queue (RemoveEvent (Some ''A'') two_events)) =
     {#\<lparr>time = 11, fifo_order = 0, userdata = 1, type = Some ''B''\<rparr>#}"
  using RemoveEvent_frame [of two_events "Some ''C''"] RemoveEvent_frame [of two_events "Some ''A''"]
  by (simp add: two_events_def)

section \<open>ForceExceptionCheck\<close>

lemma max_s64_idem: "max_s64 0 (max_s64 0 c) = max_s64 0 c"
  by (simp add: max_s64_def)

lemma max_s64_nonneg: "0 \<le> sint (max_s64 0 c)"
  by (simp add: max_s64_def word_sless_alt not_less)

lemma max_s64_mono: "c \<le>s c' \<Longrightarrow> max_s64 0 c \<le>s max_s64 0 c'"
  by (auto simp: max_s64_def word_sless_alt word_sle_eq)

lemma sint_scast_32_64: "sint (scast (r :: s32) :: s64) = sint r"
  by (simp add: sint_up_scast is_up)

lemma sint_word_of_int_s32:
  "- (2 ^ 31) \<le> x \<Longrightarrow> x < 2 ^ 31 \<Longrightarrow> sint (word_of_int x :: s32) = x"
  by (simp add: sint_sbintrunc' signed_take_bit_int_eq_self)

lemma uint_eq_sint_s64: "0 \<le> sint (c :: s64) \<Longrightarrow> uint c = sint c"
proof -
  assume nn: "0 \<le> sint c"
  have "sint c < 2 ^ 64" using sint_lt [of c] by simp
  with nn have "take_bit 64 (sint c) = sint c" by (simp add: take_bit_int_eq_self)
  then show ?thesis using uint_sint [of c] by simp
qed

lemma narrow_cycles:
  assumes "0 \<le> sint (c :: s64)" "c <s scast (r :: s32)"
  shows "sint (ucast c :: s32) = sint c"
proof -
  have "sint c < sint r" using assms(2) by (simp add: word_sless_alt sint_scast_32_64)
  moreover have "sint r < 2 ^ 31" using sint_lt [of r] by simp
  ultimately have b: "sint c < 2 ^ 31" by simp
  have "sint (ucast c :: s32) = sint (word_of_int (uint c) :: s32)" by (simp only: ucast_eq)
  also have "\<dots> = sint (word_of_int (sint c) :: s32)" by (simp add: uint_eq_sint_s64 [OF assms(1)])
  also have "\<dots> = sint c"
  proof (rule sint_word_of_int_s32 [OF _ b])
    have "- (2 ^ 31) \<le> (0 :: int)" by simp
    then show "- (2 ^ 31) \<le> sint c" using assms(1) by (rule order_trans)
  qed
  finally show ?thesis .
qed

text \<open>
  C6. \<open>ForceExceptionCheck\<close> first replaces a negative argument by zero. When the cycles
  that remain in the slice, \<open>DowncountToCycles(downcount)\<close>, exceed the clamped value, it
  subtracts their difference from \<open>slice_length\<close> and sets \<open>downcount\<close> to
  \<open>CyclesToDowncount\<close> of the clamped value, which fits an \<open>int\<close>; nothing else changes.
  When the clamped value is at least the cycles that remain, the state is unchanged, and so
  is it after a second call with the same or a larger value.
\<close>

theorem ForceExceptionCheck_effect:
  "ForceExceptionCheck fp cycles s = ForceExceptionCheck fp (max_s64 0 cycles) s \<and>
   (cycles <s 0 \<longrightarrow> ForceExceptionCheck fp cycles s = ForceExceptionCheck fp 0 s) \<and>
   (max_s64 0 cycles <s scast (DowncountToCycles fp s (downcount s)) \<longrightarrow>
      ForceExceptionCheck fp cycles s =
        s\<lparr>slice_length := slice_length s - (DowncountToCycles fp s (downcount s) - ucast (max_s64 0 cycles)),
          downcount := CyclesToDowncount fp s (ucast (max_s64 0 cycles))\<rparr> \<and>
      sint (ucast (max_s64 0 cycles) :: s32) = sint (max_s64 0 cycles)) \<and>
   (\<not> max_s64 0 cycles <s scast (DowncountToCycles fp s (downcount s)) \<longrightarrow>
      ForceExceptionCheck fp cycles s = s \<and>
      (\<forall>more. cycles \<le>s more \<longrightarrow>
         ForceExceptionCheck fp more (ForceExceptionCheck fp cycles s) = ForceExceptionCheck fp cycles s))"
proof (intro conjI impI allI)
  show "ForceExceptionCheck fp cycles s = ForceExceptionCheck fp (max_s64 0 cycles) s"
    by (simp add: ForceExceptionCheck_def max_s64_idem)
next
  assume "cycles <s 0"
  then show "ForceExceptionCheck fp cycles s = ForceExceptionCheck fp 0 s"
    by (simp add: ForceExceptionCheck_def max_s64_def word_sless_alt)
next
  assume "max_s64 0 cycles <s scast (DowncountToCycles fp s (downcount s))"
  then show "ForceExceptionCheck fp cycles s =
        s\<lparr>slice_length := slice_length s - (DowncountToCycles fp s (downcount s) - ucast (max_s64 0 cycles)),
          downcount := CyclesToDowncount fp s (ucast (max_s64 0 cycles))\<rparr>"
    by (simp add: ForceExceptionCheck_def Let_def)
next
  assume "max_s64 0 cycles <s scast (DowncountToCycles fp s (downcount s))"
  then show "sint (ucast (max_s64 0 cycles) :: s32) = sint (max_s64 0 cycles)"
    by (rule narrow_cycles [OF max_s64_nonneg])
next
  assume "\<not> max_s64 0 cycles <s scast (DowncountToCycles fp s (downcount s))"
  then show "ForceExceptionCheck fp cycles s = s"
    by (simp add: ForceExceptionCheck_def Let_def)
next
  fix more
  assume no: "\<not> max_s64 0 cycles <s scast (DowncountToCycles fp s (downcount s))"
    and le: "cycles \<le>s more"
  have same: "ForceExceptionCheck fp cycles s = s"
    using no by (simp add: ForceExceptionCheck_def Let_def)
  have "max_s64 0 cycles \<le>s max_s64 0 more" using le by (rule max_s64_mono)
  with no have "\<not> max_s64 0 more <s scast (DowncountToCycles fp s (downcount s))"
    by (simp add: word_sless_alt word_sle_eq)
  then have "ForceExceptionCheck fp more s = s"
    by (simp add: ForceExceptionCheck_def Let_def)
  with same show "ForceExceptionCheck fp more (ForceExceptionCheck fp cycles s) = ForceExceptionCheck fp cycles s"
    by simp
qed

theorem ForceExceptionCheck_effect_witness:
  "ForceExceptionCheck exact_fpu (- 5) mid_slice = ForceExceptionCheck exact_fpu 0 mid_slice \<and>
   slice_length (ForceExceptionCheck exact_fpu 30 mid_slice) = 5030 \<and>
   downcount (ForceExceptionCheck exact_fpu 30 mid_slice) = 30 \<and>
   ForceExceptionCheck exact_fpu 15000 mid_slice = mid_slice \<and>
   ForceExceptionCheck exact_fpu 16000 (ForceExceptionCheck exact_fpu 15000 mid_slice) =
     ForceExceptionCheck exact_fpu 15000 mid_slice"
proof -
  have r: "DowncountToCycles exact_fpu mid_slice (downcount mid_slice) = 15000"
    by (simp add: DowncountToCycles_def exact_fpu_def mid_slice_def blank_system_def)
  have c: "CyclesToDowncount exact_fpu mid_slice 30 = 30"
    by (simp add: CyclesToDowncount_def exact_fpu_def mid_slice_def blank_system_def)
  have m: "max_s64 0 (- 5) = 0" "max_s64 0 30 = 30" "max_s64 0 15000 = 15000"
    by (simp_all add: max_s64_def word_sless_alt)
  have neg: "ForceExceptionCheck exact_fpu (- 5) mid_slice = ForceExceptionCheck exact_fpu 0 mid_slice"
    using ForceExceptionCheck_effect [of exact_fpu "- 5" mid_slice, THEN conjunct2, THEN conjunct1]
    by (simp add: word_sless_alt)
  have short: "ForceExceptionCheck exact_fpu 30 mid_slice = mid_slice\<lparr>slice_length := 5030, downcount := 30\<rparr>"
    using ForceExceptionCheck_effect [of exact_fpu 30 mid_slice]
    by (simp add: r c m word_sless_alt) (simp add: mid_slice_def blank_system_def)
  have keep: "ForceExceptionCheck exact_fpu 15000 mid_slice = mid_slice \<and>
     (\<forall>more. 15000 \<le>s more \<longrightarrow>
         ForceExceptionCheck exact_fpu more (ForceExceptionCheck exact_fpu 15000 mid_slice) =
           ForceExceptionCheck exact_fpu 15000 mid_slice)"
  proof -
    have no: "\<not> max_s64 0 15000 <s scast (DowncountToCycles exact_fpu mid_slice (downcount mid_slice))"
      by (simp add: r m word_sless_alt)
    show ?thesis
      using ForceExceptionCheck_effect [of exact_fpu 15000 mid_slice,
          THEN conjunct2, THEN conjunct2, THEN conjunct2, THEN mp, OF no] .
  qed
  have again: "ForceExceptionCheck exact_fpu 16000 (ForceExceptionCheck exact_fpu 15000 mid_slice) =
     ForceExceptionCheck exact_fpu 15000 mid_slice"
    by (rule keep [THEN conjunct2, rule_format]) (simp add: word_sle_eq)
  show ?thesis using neg short keep [THEN conjunct1] again by (simp add: mid_slice_def)
qed

section \<open>The loop of Advance\<close>

lemma fire_loop_Suc_due:
  assumes "event_queue s \<noteq> []" "time (hd (event_queue s)) \<le>s global_timer s"
  shows "fire_loop fp (Suc n) s =
     (case invoke fp (hd (event_queue s)) (s\<lparr>event_queue := butlast (pop_heap (event_queue s))\<rparr>) of
        None \<Rightarrow> None
      | Some s2 \<Rightarrow>
          (case fire_loop fp n s2 of
             None \<Rightarrow> None
           | Some (fired, s3) \<Rightarrow> Some (hd (event_queue s) # fired, s3)))"
  using assms by (simp add: Let_def)

lemma fire_loop_Suc_idle:
  assumes "\<not> (event_queue s \<noteq> [] \<and> time (hd (event_queue s)) \<le>s global_timer s)"
  shows "fire_loop fp (Suc n) s = Some ([], s)"
  using assms by auto

lemma fire_loop_cases:
  assumes "fire_loop fp n s = Some (fired, s')"
  obtains
    (idle) m where "n = Suc m" "\<not> (event_queue s \<noteq> [] \<and> time (hd (event_queue s)) \<le>s global_timer s)"
      "fired = []" "s' = s"
  | (due) m s2 rest where "n = Suc m" "event_queue s \<noteq> []" "time (hd (event_queue s)) \<le>s global_timer s"
      "invoke fp (hd (event_queue s)) (s\<lparr>event_queue := butlast (pop_heap (event_queue s))\<rparr>) = Some s2"
      "fire_loop fp m s2 = Some (rest, s')" "fired = hd (event_queue s) # rest"
proof (cases n)
  case 0
  with assms show ?thesis by simp
next
  case (Suc m)
  show ?thesis
  proof (cases "event_queue s \<noteq> [] \<and> time (hd (event_queue s)) \<le>s global_timer s")
    case False
    with assms Suc have "fired = []" "s' = s" by (auto simp: fire_loop_Suc_idle)
    with Suc False show ?thesis by (rule idle)
  next
    case True
    then have d: "event_queue s \<noteq> []" "time (hd (event_queue s)) \<le>s global_timer s" by auto
    have "(case invoke fp (hd (event_queue s)) (s\<lparr>event_queue := butlast (pop_heap (event_queue s))\<rparr>) of
        None \<Rightarrow> None
      | Some s2 \<Rightarrow>
          (case fire_loop fp m s2 of
             None \<Rightarrow> None
           | Some (fired, s3) \<Rightarrow> Some (hd (event_queue s) # fired, s3))) = Some (fired, s')"
      using assms Suc fire_loop_Suc_due [OF d, of fp m] by simp
    then obtain s2 rest where
      "invoke fp (hd (event_queue s)) (s\<lparr>event_queue := butlast (pop_heap (event_queue s))\<rparr>) = Some s2"
      "fire_loop fp m s2 = Some (rest, s')" "fired = hd (event_queue s) # rest"
      by (auto split: option.splits)
    with Suc d show ?thesis by (rule due)
  qed
qed

declare fire_loop.simps [simp del]

lemma fire_loop_frame:
  "fire_loop fp n s = Some (fired, s') \<Longrightarrow>
     event_types s' = event_types s \<and> global_timer s' = global_timer s \<and>
     is_global_timer_sane s' = is_global_timer_sane s \<and> ev_lost s' = ev_lost s"
proof (induction n arbitrary: s fired)
  case 0
  then show ?case by (simp add: fire_loop.simps)
next
  case (Suc n)
  from Suc.prems show ?case
  proof (cases rule: fire_loop_cases)
    case (idle m)
    then show ?thesis by simp
  next
    case (due m s2 rest)
    then have "fire_loop fp n s2 = Some (rest, s')" by simp
    from Suc.IH [OF this] invoke_frame [OF due(4)] show ?thesis by simp
  qed
qed

lemma is_heap_fire_loop:
  "fire_loop fp n s = Some (fired, s') \<Longrightarrow> is_heap (event_queue s) \<Longrightarrow> is_heap (event_queue s')"
proof (induction n arbitrary: s fired)
  case 0
  then show ?case by (simp add: fire_loop.simps)
next
  case (Suc n)
  from Suc.prems(1) show ?case
  proof (cases rule: fire_loop_cases)
    case (idle m)
    with Suc.prems show ?thesis by simp
  next
    case (due m s2 rest)
    have "is_heap (event_queue (s\<lparr>event_queue := butlast (pop_heap (event_queue s))\<rparr>))"
      using Suc.prems(2) by (simp add: is_heap_butlast_pop_heap)
    then have "is_heap (event_queue s2)" using due(4) by (rule is_heap_invoke [rotated])
    moreover have "fire_loop fp n s2 = Some (rest, s')" using due by simp
    ultimately show ?thesis using Suc.IH by blast
  qed
qed

lemma fire_loop_exit:
  "fire_loop fp n s = Some (fired, s') \<Longrightarrow>
     event_queue s' = [] \<or> \<not> time (hd (event_queue s')) \<le>s global_timer s'"
proof (induction n arbitrary: s fired)
  case 0
  then show ?case by (simp add: fire_loop.simps)
next
  case (Suc n)
  from Suc.prems(1) show ?case
  proof (cases rule: fire_loop_cases)
    case (idle m)
    then show ?thesis by auto
  next
    case (due m s2 rest)
    then have "fire_loop fp n s2 = Some (rest, s')" by simp
    then show ?thesis by (rule Suc.IH)
  qed
qed

lemma Advance_begin_frame [simp]:
  "event_types (Advance_begin fp s) = event_types s"
  "is_global_timer_sane (Advance_begin fp s)"
  "ev_lost (Advance_begin fp s) = ev_lost s"
  "event_queue (Advance_begin fp s) = event_queue (MoveEvents s)"
  "slice_length (Advance_begin fp s) = MAX_SLICE_LENGTH"
  by (simp_all add: Advance_begin_def Let_def)

lemma Advance_end_frame [simp]:
  "event_types (Advance_end fp s) = event_types s"
  "\<not> is_global_timer_sane (Advance_end fp s)"
  "ev_lost (Advance_end fp s) = ev_lost s"
  "event_queue (Advance_end fp s) = event_queue s"
  "global_timer (Advance_end fp s) = global_timer s"
  by (simp_all add: Advance_end_def Let_def)

lemma Advance_cases:
  assumes "Advance fp n s = Some (fired, s')"
  obtains s3 where "fire_loop fp n (Advance_begin fp s) = Some (fired, s3)" "s' = Advance_end fp s3"
  using assms by (auto simp: Advance_def split: option.splits)

section \<open>The steps of a pass\<close>

lemma run_calls_Nil [simp]: "run_calls fp [] s = s"
  by (simp add: run_calls_def)

lemma run_calls_Cons [simp]: "run_calls fp (c # cs) s = run_calls fp cs (do_call fp c s)"
  by (simp add: run_calls_def)

lemma run_calls_append: "run_calls fp (cs @ ds) s = run_calls fp ds (run_calls fp cs s)"
  by (simp add: run_calls_def)

lemma invoke_callback_calls:
  "invoke fp evt s = Some s2 \<Longrightarrow> s2 = run_calls fp (callback_calls s evt) s"
  by (auto simp: invoke_def callback_calls_def split: option.splits)

lemma invoke_None_calls: "invoke fp evt s = None \<Longrightarrow> callback_calls s evt = []"
  by (auto simp: invoke_def callback_calls_def split: option.splits)

lemma loop_log_due:
  assumes "event_queue s \<noteq> []" "time (hd (event_queue s)) \<le>s global_timer s"
    and "invoke fp (hd (event_queue s)) (s\<lparr>event_queue := butlast (pop_heap (event_queue s))\<rparr>) = Some s2"
  shows "loop_log fp (Suc n) s =
     Fired (hd (event_queue s)) #
       call_log fp (callback_calls (s\<lparr>event_queue := butlast (pop_heap (event_queue s))\<rparr>) (hd (event_queue s)))
         (s\<lparr>event_queue := butlast (pop_heap (event_queue s))\<rparr>) @
       loop_log fp n s2"
  using assms by (simp add: Let_def)

lemma loop_log_idle:
  "\<not> (event_queue s \<noteq> [] \<and> time (hd (event_queue s)) \<le>s global_timer s) \<Longrightarrow> loop_log fp (Suc n) s = []"
  by auto

declare loop_log.simps [simp del]

lemma length_call_log [simp]: "length (call_log fp cs s) = length cs"
  by (induction cs arbitrary: s) simp_all

lemma map_filter_fired_call_log [simp]: "List.map_filter fired_step (call_log fp cs s) = []"
  by (induction cs arbitrary: s) (simp_all add: List.map_filter_simps)




lemma call_step_Some: "call_step x = Some c \<longleftrightarrow> (\<exists>st. x = Called c st)"
  by (cases x) auto

lemma state_step_Called: "x = Called c st \<Longrightarrow> state_step x = Some st"
  by simp

section \<open>The slice after Advance\<close>

lemma sint_ucast_small:
  assumes "0 \<le> sint (c :: s64)" "sint c < 2 ^ 31"
  shows "sint (ucast c :: s32) = sint c"
proof -
  have "sint (ucast c :: s32) = sint (word_of_int (uint c) :: s32)" by (simp only: ucast_eq)
  also have "\<dots> = sint (word_of_int (sint c) :: s32)" by (simp add: uint_eq_sint_s64 [OF assms(1)])
  also have "\<dots> = sint c"
  proof (rule sint_word_of_int_s32 [OF _ assms(2)])
    have "- (2 ^ 31) \<le> (0 :: int)" by simp
    then show "- (2 ^ 31) \<le> sint c" using assms(1) by (rule order_trans)
  qed
  finally show ?thesis .
qed

lemma sint_sub_s64:
  assumes "- (2 ^ 63) \<le> sint (a :: s64) - sint (b :: s64)" "sint a - sint b < 2 ^ 63"
  shows "sint (a - b) = sint a - sint b"
proof -
  have "sint (a - b) = signed_take_bit 63 (sint a - sint b)"
    by (simp add: sint_word_ariths)
  also have "\<dots> = sint a - sint b"
    using assms by (rule signed_take_bit_int_eq_self)
  finally show ?thesis .
qed

lemma sint_MAX_SLICE_LENGTH: "sint (scast MAX_SLICE_LENGTH :: s64) = 20000"
  by (simp add: MAX_SLICE_LENGTH_def)

lemma sint_min_s64: "sint (min_s64 a b) = min (sint a) (sint b)"
  by (auto simp: min_s64_def word_sless_alt)

lemma next_slice:
  assumes due: "\<not> t \<le>s g" and nov: "sint t - sint g < 2 ^ 63"
  shows "sint (ucast (min_s64 (t - g) (scast MAX_SLICE_LENGTH)) :: s32) = min (sint t - sint g) 20000"
    and "0 < sint (ucast (min_s64 (t - g) (scast MAX_SLICE_LENGTH)) :: s32)"
    and "ucast (min_s64 (t - g) (scast MAX_SLICE_LENGTH)) \<le>s MAX_SLICE_LENGTH"
proof -
  have pos: "0 < sint t - sint g" using due by (simp add: word_sle_eq)
  have "- (2 ^ 63) \<le> (0 :: int)" by simp
  then have "- (2 ^ 63) \<le> sint t - sint g" using pos by linarith
  then have d: "sint (t - g) = sint t - sint g" using nov by (rule sint_sub_s64)
  have m: "sint (min_s64 (t - g) (scast MAX_SLICE_LENGTH)) = min (sint t - sint g) 20000"
    by (simp add: sint_min_s64 d sint_MAX_SLICE_LENGTH)
  have lo: "0 \<le> sint (min_s64 (t - g) (scast MAX_SLICE_LENGTH))" using pos by (simp add: m)
  have "sint (min_s64 (t - g) (scast MAX_SLICE_LENGTH)) \<le> 20000" by (simp add: m)
  also have "\<dots> < (2 :: int) ^ 31" by simp
  finally have hi: "sint (min_s64 (t - g) (scast MAX_SLICE_LENGTH)) < 2 ^ 31" .
  show eq: "sint (ucast (min_s64 (t - g) (scast MAX_SLICE_LENGTH)) :: s32) = min (sint t - sint g) 20000"
    using sint_ucast_small [OF lo hi] m by simp
  show "0 < sint (ucast (min_s64 (t - g) (scast MAX_SLICE_LENGTH)) :: s32)"
    using pos by (simp add: eq)
  show "ucast (min_s64 (t - g) (scast MAX_SLICE_LENGTH)) \<le>s MAX_SLICE_LENGTH"
    by (simp add: word_sle_eq eq) (simp add: MAX_SLICE_LENGTH_def)
qed

lemma Advance_end_slice:
  "slice_length (Advance_end fp s) =
     (if event_queue s \<noteq> []
      then ucast (min_s64 (time (hd (event_queue s)) - global_timer s) (scast MAX_SLICE_LENGTH))
      else slice_length s)"
  by (simp add: Advance_end_def Let_def)

lemma ForceExceptionCheck_no_cycles_left:
  assumes "no_cycles_left fp s"
  shows "ForceExceptionCheck fp c s = s"
proof -
  have "0 \<le> sint (max_s64 0 c)" by (rule max_s64_nonneg)
  moreover have "sint (scast (DowncountToCycles fp s (downcount s)) :: s64) \<le> 0"
    using assms by (simp add: no_cycles_left_def sint_scast_32_64)
  ultimately have "\<not> max_s64 0 c <s scast (DowncountToCycles fp s (downcount s))"
    by (simp add: word_sless_alt)
  then show ?thesis by (simp add: ForceExceptionCheck_def Let_def)
qed

lemma ScheduleEvent_slice [simp]:
  "is_global_timer_sane s \<Longrightarrow> slice_length (ScheduleEvent fp ic d t u f s) = slice_length s"
  "is_global_timer_sane s \<Longrightarrow> downcount (ScheduleEvent fp ic d t u f s) = downcount s"
  "is_global_timer_sane s \<Longrightarrow>
     last_OC_factor_inverted (ScheduleEvent fp ic d t u f s) = last_OC_factor_inverted s"
  by (simp_all add: ScheduleEvent_def Let_def)

lemma move_each_factor [simp]:
  "last_OC_factor_inverted (move_each evs s) = last_OC_factor_inverted s"
  by (induction evs arbitrary: s) simp_all

lemma MoveEvents_factor [simp]:
  "last_OC_factor_inverted (MoveEvents s) = last_OC_factor_inverted s"
  by (simp add: MoveEvents_def)

lemma RemoveEvent_slice [simp]:
  "slice_length (RemoveEvent t s) = slice_length s"
  "downcount (RemoveEvent t s) = downcount s"
  "last_OC_factor_inverted (RemoveEvent t s) = last_OC_factor_inverted s"
  by (simp_all add: RemoveEvent_def Let_def)

lemma RemoveAllEvents_slice [simp]:
  "slice_length (RemoveAllEvents t s) = slice_length s"
  "downcount (RemoveAllEvents t s) = downcount s"
  "last_OC_factor_inverted (RemoveAllEvents t s) = last_OC_factor_inverted s"
  by (simp_all add: RemoveAllEvents_def)

lemma do_call_no_cycles_left:
  assumes "no_cycles_left fp s"
  shows "no_cycles_left fp (do_call fp c s) \<and> slice_length (do_call fp c s) = slice_length s"
proof (cases c)
  case (CallForceExceptionCheck x)
  with assms show ?thesis by (simp add: ForceExceptionCheck_no_cycles_left)
qed (use assms in \<open>simp_all add: no_cycles_left_def DowncountToCycles_def\<close>)

lemma run_calls_no_cycles_left:
  "no_cycles_left fp s \<Longrightarrow>
     no_cycles_left fp (run_calls fp cs s) \<and> slice_length (run_calls fp cs s) = slice_length s"
  unfolding run_calls_def
proof (induction cs arbitrary: s)
  case Nil
  then show ?case by simp
next
  case (Cons c cs)
  from do_call_no_cycles_left [OF Cons.prems, of c] Cons.IH [of "do_call fp c s"]
  show ?case by simp
qed

lemma invoke_no_cycles_left:
  assumes "invoke fp evt s = Some s'" "no_cycles_left fp s"
  shows "no_cycles_left fp s' \<and> slice_length s' = slice_length s"
  using assms run_calls_no_cycles_left [OF assms(2)]
  by (auto simp: invoke_def split: option.splits)

lemma fire_loop_no_cycles_left:
  "fire_loop fp n s = Some (fired, s') \<Longrightarrow> no_cycles_left fp s \<Longrightarrow> slice_length s' = slice_length s"
proof (induction n arbitrary: s fired)
  case 0
  then show ?case by (simp add: fire_loop.simps)
next
  case (Suc n)
  from Suc.prems(1) show ?case
  proof (cases rule: fire_loop_cases)
    case (idle m)
    then show ?thesis by simp
  next
    case (due m s2 rest)
    have "no_cycles_left fp (s\<lparr>event_queue := butlast (pop_heap (event_queue s))\<rparr>)"
      using Suc.prems(2) by (simp add: no_cycles_left_def DowncountToCycles_def)
    from invoke_no_cycles_left [OF due(4) this]
    have "no_cycles_left fp s2" "slice_length s2 = slice_length s" by simp_all
    moreover have "fire_loop fp n s2 = Some (rest, s')" using due by simp
    ultimately show ?thesis using Suc.IH by metis
  qed
qed

lemma all_later_than_timer:
  assumes "is_heap q" "q = [] \<or> \<not> time (hd q) \<le>s g" "e \<in> set q"
  shows "g <s time e"
proof -
  have "ev_key (hd q) \<le> ev_key e" using assms(1,3) by (rule is_heap_hd_least)
  then have "sint (time (hd q)) \<le> sint (time e)"
    by (auto simp: ev_key_def less_eq_prod_def)
  moreover have "sint g < sint (time (hd q))" using assms(2,3) by (auto simp: word_sle_eq)
  ultimately show ?thesis by (simp add: word_sless_alt)
qed

lemma sint_sub_s32:
  assumes "- (2 ^ 31) \<le> sint (a :: s32) - sint (b :: s32)" "sint a - sint b < 2 ^ 31"
  shows "sint (a - b) = sint a - sint b"
proof -
  have "sint (a - b) = signed_take_bit 31 (sint a - sint b)"
    by (simp add: sint_word_ariths)
  also have "\<dots> = sint a - sint b"
    using assms by (rule signed_take_bit_int_eq_self)
  finally show ?thesis .
qed

lemma ForceExceptionCheck_shortens:
  assumes eff: "max_s64 0 d <s scast (DowncountToCycles fp s (downcount s))"
    and rng: "- (2 ^ 31) \<le> sint (slice_length s) -
        (sint (DowncountToCycles fp s (downcount s)) - sint (max_s64 0 d))"
  shows "sint (slice_length (ForceExceptionCheck fp d s)) =
           sint (slice_length s) - (sint (DowncountToCycles fp s (downcount s)) - sint (max_s64 0 d))"
    and "sint (slice_length (ForceExceptionCheck fp d s)) < sint (slice_length s)"
proof -
  let ?D = "DowncountToCycles fp s (downcount s)"
  let ?m = "max_s64 0 d"
  have m0: "0 \<le> sint ?m" by (rule max_s64_nonneg)
  have nm: "sint (ucast ?m :: s32) = sint ?m" using m0 eff by (rule narrow_cycles)
  have lt: "sint ?m < sint ?D" using eff by (simp add: word_sless_alt sint_scast_32_64)
  have D31: "sint ?D < 2 ^ 31" using sint_lt [of ?D] by simp
  have s31: "sint (slice_length s) < 2 ^ 31" using sint_lt [of "slice_length s"] by simp
  have "- (2 ^ 31) \<le> (0 :: int)" by simp
  also have "\<dots> \<le> sint ?D - sint (ucast ?m :: s32)" using lt nm by simp
  finally have lo: "- (2 ^ 31) \<le> sint ?D - sint (ucast ?m :: s32)" .
  have "sint ?D - sint (ucast ?m :: s32) \<le> sint ?D" using m0 nm by simp
  also have "\<dots> < 2 ^ 31" by (rule D31)
  finally have hi: "sint ?D - sint (ucast ?m :: s32) < 2 ^ 31" .
  have x: "sint (?D - ucast ?m) = sint ?D - sint ?m"
    using sint_sub_s32 [OF lo hi] nm by simp
  have lo2: "- (2 ^ 31) \<le> sint (slice_length s) - sint (?D - ucast ?m)"
    using rng by (simp add: x)
  have "sint (slice_length s) - sint (?D - ucast ?m) \<le> sint (slice_length s)"
    using lt by (simp add: x)
  also have "\<dots> < 2 ^ 31" by (rule s31)
  finally have hi2: "sint (slice_length s) - sint (?D - ucast ?m) < 2 ^ 31" .
  have sl: "slice_length (ForceExceptionCheck fp d s) = slice_length s - (?D - ucast ?m)"
    using eff by (simp add: ForceExceptionCheck_def Let_def)
  show eq: "sint (slice_length (ForceExceptionCheck fp d s)) = sint (slice_length s) - (sint ?D - sint ?m)"
    unfolding sl using sint_sub_s32 [OF lo2 hi2] by (simp add: x)
  show "sint (slice_length (ForceExceptionCheck fp d s)) < sint (slice_length s)"
    unfolding eq using lt by simp
qed

lemma ForceExceptionCheck_idle:
  "\<not> max_s64 0 d <s scast (DowncountToCycles fp s (downcount s)) \<Longrightarrow> ForceExceptionCheck fp d s = s"
  by (simp add: ForceExceptionCheck_def Let_def)

lemma do_call_slice:
  assumes "is_global_timer_sane s"
  shows "\<not> shortens fp (Called c s) \<Longrightarrow> slice_length (do_call fp c s) = slice_length s"
    and "slice_in_range fp (Called c s) \<Longrightarrow> sint (slice_length (do_call fp c s)) \<le> sint (slice_length s)"
    and "slice_in_range fp (Called c s) \<Longrightarrow> shortens fp (Called c s) \<Longrightarrow>
           sint (slice_length (do_call fp c s)) < sint (slice_length s)"
proof -
  show "\<not> shortens fp (Called c s) \<Longrightarrow> slice_length (do_call fp c s) = slice_length s"
    using assms by (cases c) (simp_all add: ForceExceptionCheck_idle)
  show strict: "slice_in_range fp (Called c s) \<Longrightarrow> shortens fp (Called c s) \<Longrightarrow>
           sint (slice_length (do_call fp c s)) < sint (slice_length s)"
    by (cases c) (simp_all add: ForceExceptionCheck_shortens(2))
  show "slice_in_range fp (Called c s) \<Longrightarrow> sint (slice_length (do_call fp c s)) \<le> sint (slice_length s)"
  proof (cases "shortens fp (Called c s)")
    case True
    assume "slice_in_range fp (Called c s)"
    from strict [OF this True] show ?thesis by simp
  next
    case False
    then have "slice_length (do_call fp c s) = slice_length s"
      using assms by (cases c) (simp_all add: ForceExceptionCheck_idle)
    then show ?thesis by simp
  qed
qed

lemma run_calls_slice:
  "is_global_timer_sane s \<Longrightarrow>
     ((\<forall>step\<in>set (call_log fp cs s). \<not> shortens fp step) \<longrightarrow>
        slice_length (run_calls fp cs s) = slice_length s) \<and>
     ((\<forall>step\<in>set (call_log fp cs s). slice_in_range fp step) \<longrightarrow>
        sint (slice_length (run_calls fp cs s)) \<le> sint (slice_length s) \<and>
        ((\<exists>step\<in>set (call_log fp cs s). shortens fp step) \<longrightarrow>
           sint (slice_length (run_calls fp cs s)) < sint (slice_length s)))"
proof (induction cs arbitrary: s)
  case Nil
  then show ?case by simp
next
  case (Cons c cs)
  let ?s1 = "do_call fp c s"
  have sane: "is_global_timer_sane ?s1" using Cons.prems by simp
  note IH = Cons.IH [OF sane]
  note one = do_call_slice [OF Cons.prems, of fp c]
  show ?case
  proof (intro conjI impI)
    assume a: "\<forall>step\<in>set (call_log fp (c # cs) s). \<not> shortens fp step"
    then have "slice_length ?s1 = slice_length s" by (intro one(1)) simp
    moreover have "slice_length (run_calls fp cs ?s1) = slice_length ?s1" using IH a by simp
    ultimately show "slice_length (run_calls fp (c # cs) s) = slice_length s" by simp
  next
    assume a: "\<forall>step\<in>set (call_log fp (c # cs) s). slice_in_range fp step"
    then have "sint (slice_length ?s1) \<le> sint (slice_length s)" by (intro one(2)) simp
    moreover have "sint (slice_length (run_calls fp cs ?s1)) \<le> sint (slice_length ?s1)" using IH a by simp
    ultimately show "sint (slice_length (run_calls fp (c # cs) s)) \<le> sint (slice_length s)" by simp
  next
    assume a: "\<forall>step\<in>set (call_log fp (c # cs) s). slice_in_range fp step"
      and b: "\<exists>step\<in>set (call_log fp (c # cs) s). shortens fp step"
    have r1: "slice_in_range fp (Called c s)" using a by simp
    have le1: "sint (slice_length ?s1) \<le> sint (slice_length s)" using r1 by (rule one(2))
    have le2: "sint (slice_length (run_calls fp cs ?s1)) \<le> sint (slice_length ?s1)" using IH a by simp
    from b have "shortens fp (Called c s) \<or> (\<exists>step\<in>set (call_log fp cs ?s1). shortens fp step)" by simp
    then have "sint (slice_length (run_calls fp cs ?s1)) < sint (slice_length s)"
    proof
      assume "shortens fp (Called c s)"
      with r1 have "sint (slice_length ?s1) < sint (slice_length s)" by (rule one(3))
      with le2 show ?thesis by simp
    next
      assume "\<exists>step\<in>set (call_log fp cs ?s1). shortens fp step"
      then have "sint (slice_length (run_calls fp cs ?s1)) < sint (slice_length ?s1)" using IH a by simp
      with le1 show ?thesis by simp
    qed
    then show "sint (slice_length (run_calls fp (c # cs) s)) < sint (slice_length s)" by simp
  qed
qed

lemma fire_loop_slice:
  "fire_loop fp n s = Some (fired, s') \<Longrightarrow> is_global_timer_sane s \<Longrightarrow>
     ((\<forall>step\<in>set (loop_log fp n s). \<not> shortens fp step) \<longrightarrow> slice_length s' = slice_length s) \<and>
     ((\<forall>step\<in>set (loop_log fp n s). slice_in_range fp step) \<longrightarrow>
        sint (slice_length s') \<le> sint (slice_length s) \<and>
        ((\<exists>step\<in>set (loop_log fp n s). shortens fp step) \<longrightarrow>
           sint (slice_length s') < sint (slice_length s)))"
proof (induction n arbitrary: s fired)
  case 0
  then show ?case by (simp add: fire_loop.simps)
next
  case (Suc n)
  from Suc.prems(1) show ?case
  proof (cases rule: fire_loop_cases)
    case (idle m)
    then show ?thesis by (simp add: loop_log_idle)
  next
    case (due m s2 rest)
    let ?evt = "hd (event_queue s)"
    let ?s1 = "s\<lparr>event_queue := butlast (pop_heap (event_queue s))\<rparr>"
    let ?cs = "callback_calls ?s1 ?evt"
    have log: "loop_log fp (Suc n) s = Fired ?evt # call_log fp ?cs ?s1 @ loop_log fp n s2"
      using due(2,3,4) by (rule loop_log_due)
    have s2: "s2 = run_calls fp ?cs ?s1" using due(4) by (rule invoke_callback_calls)
    have sane1: "is_global_timer_sane ?s1" using Suc.prems(2) by simp
    have sane2: "is_global_timer_sane s2" using sane1 by (simp add: s2)
    have run: "fire_loop fp n s2 = Some (rest, s')" using due by simp
    note IH = Suc.IH [OF run sane2]
    note cb = run_calls_slice [OF sane1, of fp ?cs, folded s2]
    have sl1: "slice_length ?s1 = slice_length s" by simp
    show ?thesis
    proof (intro conjI impI)
      assume a: "\<forall>step\<in>set (loop_log fp (Suc n) s). \<not> shortens fp step"
      have "slice_length s2 = slice_length ?s1" using cb a by (simp add: log)
      moreover have "slice_length s' = slice_length s2" using IH a by (simp add: log)
      ultimately show "slice_length s' = slice_length s" by simp
    next
      assume a: "\<forall>step\<in>set (loop_log fp (Suc n) s). slice_in_range fp step"
      have "sint (slice_length s2) \<le> sint (slice_length ?s1)" using cb a by (simp add: log)
      moreover have "sint (slice_length s') \<le> sint (slice_length s2)" using IH a by (simp add: log)
      ultimately show "sint (slice_length s') \<le> sint (slice_length s)" by simp
    next
      assume a: "\<forall>step\<in>set (loop_log fp (Suc n) s). slice_in_range fp step"
        and b: "\<exists>step\<in>set (loop_log fp (Suc n) s). shortens fp step"
      have le1: "sint (slice_length s2) \<le> sint (slice_length ?s1)" using cb a by (simp add: log)
      have le2: "sint (slice_length s') \<le> sint (slice_length s2)" using IH a by (simp add: log)
      from b have "(\<exists>step\<in>set (call_log fp ?cs ?s1). shortens fp step) \<or>
          (\<exists>step\<in>set (loop_log fp n s2). shortens fp step)"
        by (auto simp: log)
      then have "sint (slice_length s') < sint (slice_length ?s1)"
      proof
        assume "\<exists>step\<in>set (call_log fp ?cs ?s1). shortens fp step"
        then have "sint (slice_length s2) < sint (slice_length ?s1)" using cb a by (simp add: log)
        with le2 show ?thesis by simp
      next
        assume "\<exists>step\<in>set (loop_log fp n s2). shortens fp step"
        then have "sint (slice_length s') < sint (slice_length s2)" using IH a by (simp add: log)
        with le1 show ?thesis by simp
      qed
      then show "sint (slice_length s') < sint (slice_length s)" by simp
    qed
  qed
qed

text \<open>
  C4, as amended. After a call of \<open>Advance\<close> that returns: if the queue is not empty (and
  the difference of its first deadline and \<open>global_timer\<close> does not overflow \<open>s64\<close>) then
  \<open>slice_length\<close> is the minimum of that difference and \<open>MAX_SLICE_LENGTH\<close>, it is positive and
  at most \<open>MAX_SLICE_LENGTH\<close>. If the queue is empty, \<open>slice_length\<close> is \<open>MAX_SLICE_LENGTH\<close>
  when no cycles were left on the downcount as \<open>Advance\<close> was called, and also when no
  callback of the pass made a call of \<open>ForceExceptionCheck\<close> that took effect; and when the
  subtractions that such calls made from \<open>slice_length\<close> did not overflow, \<open>slice_length\<close> is
  at most \<open>MAX_SLICE_LENGTH\<close>, and less when there was such a call. If the queue was a heap
  before the call, every event still in it has a deadline after \<open>global_timer\<close>.
\<close>

theorem Advance_slice_length:
  assumes "Advance fp n s = Some (fired, s')"
  shows "(event_queue s' \<noteq> [] \<and> sint (time (hd (event_queue s'))) - sint (global_timer s') < 2 ^ 63 \<longrightarrow>
            sint (slice_length s') = min (sint (time (hd (event_queue s'))) - sint (global_timer s')) 20000 \<and>
            0 < sint (slice_length s') \<and> slice_length s' \<le>s MAX_SLICE_LENGTH) \<and>
         (event_queue s' = [] \<and> sint (DowncountToCycles fp (Advance_begin fp s) (downcount s)) \<le> 0 \<longrightarrow>
            slice_length s' = MAX_SLICE_LENGTH) \<and>
         (event_queue s' = [] \<and>
          (\<forall>step\<in>set (loop_log fp n (Advance_begin fp s)). \<not> shortens fp step) \<longrightarrow>
            slice_length s' = MAX_SLICE_LENGTH) \<and>
         (event_queue s' = [] \<and>
          (\<forall>step\<in>set (loop_log fp n (Advance_begin fp s)). slice_in_range fp step) \<longrightarrow>
            slice_length s' \<le>s MAX_SLICE_LENGTH \<and>
            ((\<exists>step\<in>set (loop_log fp n (Advance_begin fp s)). shortens fp step) \<longrightarrow>
               slice_length s' <s MAX_SLICE_LENGTH)) \<and>
         (is_heap (event_queue s) \<longrightarrow> (\<forall>e\<in>set (event_queue s'). global_timer s' <s time e))"
proof -
  from assms obtain s3 where loop: "fire_loop fp n (Advance_begin fp s) = Some (fired, s3)"
    and s': "s' = Advance_end fp s3"
    by (rule Advance_cases)
  have exit: "event_queue s3 = [] \<or> \<not> time (hd (event_queue s3)) \<le>s global_timer s3"
    using loop by (rule fire_loop_exit)
  have q: "event_queue s' = event_queue s3" "global_timer s' = global_timer s3"
    by (simp_all add: s')
  have sane: "is_global_timer_sane (Advance_begin fp s)" by simp
  note slice = fire_loop_slice [OF loop sane]
  show ?thesis
  proof (intro conjI impI)
    assume a: "event_queue s' \<noteq> [] \<and> sint (time (hd (event_queue s'))) - sint (global_timer s') < 2 ^ 63"
    then have due: "\<not> time (hd (event_queue s3)) \<le>s global_timer s3"
      and nov: "sint (time (hd (event_queue s3))) - sint (global_timer s3) < 2 ^ 63"
      using exit q by auto
    have sl: "slice_length s' =
        ucast (min_s64 (time (hd (event_queue s3)) - global_timer s3) (scast MAX_SLICE_LENGTH))"
      using a q by (simp add: s' Advance_end_slice)
    show "sint (slice_length s') = min (sint (time (hd (event_queue s'))) - sint (global_timer s')) 20000"
      using next_slice(1) [OF due nov] by (simp add: sl q)
    show "0 < sint (slice_length s')"
      using next_slice(2) [OF due nov] by (simp add: sl)
    show "slice_length s' \<le>s MAX_SLICE_LENGTH"
      using next_slice(3) [OF due nov] by (simp add: sl)
  next
    assume a: "event_queue s' = [] \<and> sint (DowncountToCycles fp (Advance_begin fp s) (downcount s)) \<le> 0"
    have "downcount (Advance_begin fp s) = downcount s"
      by (simp add: Advance_begin_def Let_def)
    with a have "no_cycles_left fp (Advance_begin fp s)"
      by (simp add: no_cycles_left_def)
    with loop have "slice_length s3 = slice_length (Advance_begin fp s)"
      by (rule fire_loop_no_cycles_left)
    then show "slice_length s' = MAX_SLICE_LENGTH"
      using a q by (simp add: s' Advance_end_slice)
  next
    assume a: "event_queue s' = [] \<and>
      (\<forall>step\<in>set (loop_log fp n (Advance_begin fp s)). \<not> shortens fp step)"
    then have "slice_length s3 = slice_length (Advance_begin fp s)" using slice by blast
    then show "slice_length s' = MAX_SLICE_LENGTH"
      using a q by (simp add: s' Advance_end_slice)
  next
    assume a: "event_queue s' = [] \<and>
      (\<forall>step\<in>set (loop_log fp n (Advance_begin fp s)). slice_in_range fp step)"
    then have "sint (slice_length s3) \<le> sint (slice_length (Advance_begin fp s))" using slice by blast
    then show "slice_length s' \<le>s MAX_SLICE_LENGTH"
      using a q by (simp add: s' Advance_end_slice word_sle_eq)
  next
    assume a: "event_queue s' = [] \<and>
      (\<forall>step\<in>set (loop_log fp n (Advance_begin fp s)). slice_in_range fp step)"
      and b: "\<exists>step\<in>set (loop_log fp n (Advance_begin fp s)). shortens fp step"
    then have "sint (slice_length s3) < sint (slice_length (Advance_begin fp s))" using slice by blast
    then show "slice_length s' <s MAX_SLICE_LENGTH"
      using a q by (simp add: s' Advance_end_slice word_sless_alt)
  next
    assume "is_heap (event_queue s)"
    then have "is_heap (event_queue (Advance_begin fp s))"
      by (simp add: is_heap_MoveEvents)
    with loop have "is_heap (event_queue s3)" by (rule is_heap_fire_loop)
    then show "\<forall>e\<in>set (event_queue s'). global_timer s' <s time e"
      using exit all_later_than_timer [of "event_queue s3" "global_timer s3"] by (auto simp: q)
  qed
qed

text \<open>
  The claim as it was stated fails when cycles are left on the downcount, as at the first
  \<open>Advance\<close> after \<open>Init\<close>, and a callback calls \<open>ForceExceptionCheck\<close>: the slice is
  shortened inside the loop, and with an empty queue nothing sets it again.
\<close>

theorem Advance_slice_length_counterexample:
  "map_option (event_queue \<circ> snd) (Advance exact_fpu 2 forcing) = Some [] \<and>
   map_option (slice_length \<circ> snd) (Advance exact_fpu 2 forcing) = Some 0 \<and>
   MAX_SLICE_LENGTH = 20000"
  by code_simp

theorem Advance_slice_length_witness:
  "(\<exists>fired s'. Advance exact_fpu 5 scenario4 = Some (fired, s') \<and>
      event_queue s' = [\<lparr>time = 200, fifo_order = 3, userdata = 0, type = Some ''A''\<rparr>] \<and>
      global_timer s' = 110 \<and> sint (slice_length s') = 90 \<and> slice_length s' \<le>s MAX_SLICE_LENGTH \<and>
      list_all (\<lambda>e. global_timer s' <s time e) (event_queue s')) \<and>
   (\<exists>fired s'. Advance exact_fpu 1 idle_boot = Some (fired, s') \<and>
      event_queue s' = [] \<and> slice_length s' = MAX_SLICE_LENGTH) \<and>
   sint (DowncountToCycles exact_fpu (Advance_begin exact_fpu booted) (downcount booted)) = 20000 \<and>
   (\<exists>fired s'. Advance exact_fpu 1 booted = Some (fired, s') \<and>
      event_queue s' = [] \<and> slice_length s' = MAX_SLICE_LENGTH) \<and>
   (\<exists>fired s'. Advance exact_fpu 9 (run_calls exact_fpu scenario1 chained) = Some (fired, s') \<and>
      length fired = 5 \<and> event_queue s' = [] \<and> slice_length s' = MAX_SLICE_LENGTH) \<and>
   (\<exists>fired s'. Advance exact_fpu 2 forcing = Some (fired, s') \<and>
      event_queue s' = [] \<and> slice_length s' <s MAX_SLICE_LENGTH)"
proof (intro conjI)
  have "map_option (\<lambda>(fired, s'). (event_queue s', global_timer s')) (Advance exact_fpu 5 scenario4) =
      Some ([\<lparr>time = 200, fifo_order = 3, userdata = 0, type = Some ''A''\<rparr>], 110)"
    by code_simp
  then obtain fired s' where run: "Advance exact_fpu 5 scenario4 = Some (fired, s')"
    and q: "event_queue s' = [\<lparr>time = 200, fifo_order = 3, userdata = 0, type = Some ''A''\<rparr>]"
    and g: "global_timer s' = 110"
    by auto
  have h: "is_heap (event_queue scenario4)" by code_simp
  from Advance_slice_length [OF run] q g h
  have "sint (slice_length s') = 90" "slice_length s' \<le>s MAX_SLICE_LENGTH"
    "\<forall>e\<in>set (event_queue s'). global_timer s' <s time e"
    by simp_all
  with run q g show "\<exists>fired s'. Advance exact_fpu 5 scenario4 = Some (fired, s') \<and>
      event_queue s' = [\<lparr>time = 200, fifo_order = 3, userdata = 0, type = Some ''A''\<rparr>] \<and>
      global_timer s' = 110 \<and> sint (slice_length s') = 90 \<and> slice_length s' \<le>s MAX_SLICE_LENGTH \<and>
      list_all (\<lambda>e. global_timer s' <s time e) (event_queue s')"
    by (auto simp: list_all_iff)
next
  have "map_option (\<lambda>(fired, s'). event_queue s') (Advance exact_fpu 1 idle_boot) = Some []"
    by code_simp
  then obtain fired s' where run: "Advance exact_fpu 1 idle_boot = Some (fired, s')"
    and q: "event_queue s' = []"
    by auto
  have d: "sint (DowncountToCycles exact_fpu (Advance_begin exact_fpu idle_boot) (downcount idle_boot)) \<le> 0"
    by code_simp
  from Advance_slice_length [OF run] q d have "slice_length s' = MAX_SLICE_LENGTH" by simp
  with run q show "\<exists>fired s'. Advance exact_fpu 1 idle_boot = Some (fired, s') \<and>
      event_queue s' = [] \<and> slice_length s' = MAX_SLICE_LENGTH"
    by auto
next
  show "sint (DowncountToCycles exact_fpu (Advance_begin exact_fpu booted) (downcount booted)) = 20000"
    by code_simp
next
  have "map_option (\<lambda>(fired, s'). event_queue s') (Advance exact_fpu 1 booted) = Some []"
    by code_simp
  then obtain fired s' where run: "Advance exact_fpu 1 booted = Some (fired, s')"
    and q: "event_queue s' = []"
    by auto
  have d: "\<forall>step\<in>set (loop_log exact_fpu 1 (Advance_begin exact_fpu booted)). \<not> shortens exact_fpu step"
    by code_simp
  from Advance_slice_length [OF run] q d have "slice_length s' = MAX_SLICE_LENGTH" by blast
  with run q show "\<exists>fired s'. Advance exact_fpu 1 booted = Some (fired, s') \<and>
      event_queue s' = [] \<and> slice_length s' = MAX_SLICE_LENGTH"
    by auto
next
  have "map_option (\<lambda>(fired, s'). (length fired, event_queue s'))
      (Advance exact_fpu 9 (run_calls exact_fpu scenario1 chained)) = Some (5, [])"
    by code_simp
  then obtain fired s' where run: "Advance exact_fpu 9 (run_calls exact_fpu scenario1 chained) = Some (fired, s')"
    and q: "length fired = 5" "event_queue s' = []"
    by auto
  have d: "\<forall>step\<in>set (loop_log exact_fpu 9 (Advance_begin exact_fpu (run_calls exact_fpu scenario1 chained))).
      \<not> shortens exact_fpu step"
    by code_simp
  from Advance_slice_length [OF run] q d have "slice_length s' = MAX_SLICE_LENGTH" by blast
  with run q show "\<exists>fired s'. Advance exact_fpu 9 (run_calls exact_fpu scenario1 chained) = Some (fired, s') \<and>
      length fired = 5 \<and> event_queue s' = [] \<and> slice_length s' = MAX_SLICE_LENGTH"
    by auto
next
  have "map_option (\<lambda>(fired, s'). event_queue s') (Advance exact_fpu 2 forcing) = Some []"
    by code_simp
  then obtain fired s' where run: "Advance exact_fpu 2 forcing = Some (fired, s')"
    and q: "event_queue s' = []"
    by auto
  have r: "\<forall>step\<in>set (loop_log exact_fpu 2 (Advance_begin exact_fpu forcing)). slice_in_range exact_fpu step"
    by code_simp
  have e: "\<exists>step\<in>set (loop_log exact_fpu 2 (Advance_begin exact_fpu forcing)). shortens exact_fpu step"
    by code_simp
  from Advance_slice_length [OF run] q r e have "slice_length s' <s MAX_SLICE_LENGTH" by blast
  with run q show "\<exists>fired s'. Advance exact_fpu 2 forcing = Some (fired, s') \<and>
      event_queue s' = [] \<and> slice_length s' <s MAX_SLICE_LENGTH"
    by auto
qed

section \<open>The flag is_global_timer_sane\<close>

text \<open>
  C8, as amended. \<open>is_global_timer_sane\<close> is true when \<open>Init\<close> returns. \<open>Advance\<close> sets it
  before its loop, the loop and every callback called from it keep it, and \<open>Advance\<close> clears
  it before it returns. No other operation changes it. So it is true from \<open>Init\<close> to the end
  of the first \<open>Advance\<close> and inside the loop of every \<open>Advance\<close>, and false from the end of an
  \<open>Advance\<close> to the next.
\<close>

theorem is_global_timer_sane_window:
  "is_global_timer_sane (Init fp cfg s) \<and>
   is_global_timer_sane (Advance_begin fp s) \<and>
   (\<forall>n fired s'. fire_loop fp n s = Some (fired, s') \<longrightarrow> is_global_timer_sane s' = is_global_timer_sane s) \<and>
   (\<forall>evt s'. invoke fp evt s = Some s' \<longrightarrow> is_global_timer_sane s' = is_global_timer_sane s) \<and>
   (\<forall>n fired s'. Advance fp n s = Some (fired, s') \<longrightarrow> \<not> is_global_timer_sane s') \<and>
   is_global_timer_sane (ScheduleEvent fp ic d t u f s) = is_global_timer_sane s \<and>
   is_global_timer_sane (RemoveEvent t s) = is_global_timer_sane s \<and>
   is_global_timer_sane (RemoveAllEvents t s) = is_global_timer_sane s \<and>
   is_global_timer_sane (ForceExceptionCheck fp d s) = is_global_timer_sane s \<and>
   is_global_timer_sane (MoveEvents s) = is_global_timer_sane s \<and>
   is_global_timer_sane (AdjustEventQueueTimes new_clock old_clock s) = is_global_timer_sane s \<and>
   is_global_timer_sane (Idle fp s) = is_global_timer_sane s \<and>
   is_global_timer_sane (DoState_read fp saved s) = is_global_timer_sane s \<and>
   is_global_timer_sane (snd (RegisterEvent nm cb s)) = is_global_timer_sane s \<and>
   is_global_timer_sane (UnregisterAllEvents s) = is_global_timer_sane s \<and>
   is_global_timer_sane (ClearPendingEvents s) = is_global_timer_sane s \<and>
   is_global_timer_sane (RefreshConfig fp cfg s) = is_global_timer_sane s"
proof (intro conjI allI impI)
  show "is_global_timer_sane (Init fp cfg s)"
    by (simp add: Init_def RegisterEvent_def Let_def)
next
  fix n fired s' assume "fire_loop fp n s = Some (fired, s')"
  then show "is_global_timer_sane s' = is_global_timer_sane s" by (simp add: fire_loop_frame)
next
  fix evt s' assume "invoke fp evt s = Some s'"
  then show "is_global_timer_sane s' = is_global_timer_sane s" by (rule invoke_frame)
next
  fix n fired s' assume "Advance fp n s = Some (fired, s')"
  then show "\<not> is_global_timer_sane s'" by (rule Advance_cases) simp
next
  show "is_global_timer_sane (DoState_read fp saved s) = is_global_timer_sane s"
    by (simp add: DoState_read_def Let_def)
qed (simp_all add: AdjustEventQueueTimes_def Idle_def RegisterEvent_def UnregisterAllEvents_def
      ClearPendingEvents_def RefreshConfig_def Let_def)

text \<open>
  The claim as it was stated fails between \<open>Init\<close> and the first \<open>Advance\<close>: the flag is
  true after \<open>Init\<close>, and still after a \<open>ScheduleEvent\<close> made then.
\<close>

theorem is_global_timer_sane_window_counterexample:
  "is_global_timer_sane (Init exact_fpu default_config blank_system) \<and>
   is_global_timer_sane
     (ScheduleEvent exact_fpu True 100 (Some ''_lost_event'') 0 CPU (Init exact_fpu default_config blank_system))"
  by code_simp

theorem is_global_timer_sane_window_witness:
  "\<exists>fired s'. Advance exact_fpu 5 scenario4 = Some (fired, s') \<and> \<not> is_global_timer_sane s' \<and>
     is_global_timer_sane (Advance_begin exact_fpu scenario4) \<and>
     (\<exists>mid. fire_loop exact_fpu 5 (Advance_begin exact_fpu scenario4) = Some (fired, mid) \<and>
        is_global_timer_sane mid)"
proof -
  have "map_option (\<lambda>(fired, s'). fired) (Advance exact_fpu 5 scenario4) =
      Some [\<lparr>time = 100, fifo_order = 1, userdata = 0, type = Some ''A''\<rparr>,
            \<lparr>time = 100, fifo_order = 2, userdata = 0, type = Some ''B''\<rparr>]"
    by code_simp
  then obtain fired s' where run: "Advance exact_fpu 5 scenario4 = Some (fired, s')" by auto
  then obtain mid where loop: "fire_loop exact_fpu 5 (Advance_begin exact_fpu scenario4) = Some (fired, mid)"
    by (rule Advance_cases)
  note w = is_global_timer_sane_window [of exact_fpu]
  have "\<not> is_global_timer_sane s'"
    using w [of _ scenario4, THEN conjunct2, THEN conjunct2, THEN conjunct2, THEN conjunct2, THEN conjunct1] run
    by blast
  moreover have b: "is_global_timer_sane (Advance_begin exact_fpu scenario4)"
    using w [of _ scenario4, THEN conjunct2, THEN conjunct1] .
  moreover have "is_global_timer_sane mid"
    using w [of _ "Advance_begin exact_fpu scenario4", THEN conjunct2, THEN conjunct2, THEN conjunct1] loop b
    by blast
  ultimately show ?thesis using run loop by blast
qed

section \<open>Loading\<close>

lemma Init_registers_sentinel:
  assumes "event_types s ''_lost_event'' = None"
  shows "ev_lost (Init fp cfg s) = Some ''_lost_event'' \<and>
         event_types (Init fp cfg s) ''_lost_event'' =
           Some \<lparr>callback = EmptyTimedCallback, name = Some ''_lost_event''\<rparr>"
  using assms by (simp add: Init_def RefreshConfig_def RegisterEvent_def Let_def)

lemma RegisterEvent_keeps_sentinel:
  assumes "nm \<noteq> ''_lost_event''"
  shows "ev_lost (snd (RegisterEvent nm cb s)) = ev_lost s \<and>
         event_types (snd (RegisterEvent nm cb s)) ''_lost_event'' = event_types s ''_lost_event''"
  using assms by (simp add: RegisterEvent_def Let_def)

lemma DoState_read_queue:
  "event_queue (DoState_read fp saved s) = make_heap (map (load_event s) (saved_events saved))"
proof -
  have "load_event (MoveEvents (s\<lparr>slice_length := saved_slice_length saved,
                 global_timer := saved_global_timer saved,
                 idled_cycles := saved_idled_cycles saved,
                 fake_dec_start_value := saved_fake_dec_start_value saved,
                 fake_dec_start_ticks := saved_fake_dec_start_ticks saved,
                 fake_TB_start_value := saved_fake_TB_start_value saved,
                 fake_TB_start_ticks := saved_fake_TB_start_ticks saved,
                 last_oc_factor := saved_last_oc_factor saved,
                 last_OC_factor_inverted := float_recip fp (saved_last_oc_factor saved),
                 event_fifo_id := saved_event_fifo_id saved\<rparr>)) = load_event s"
    by (rule ext) (simp add: load_event_def split: option.splits)
  then show ?thesis by (simp add: DoState_read_def DoEachElement_read_def Let_def)
qed

lemma DoState_read_frame [simp]:
  "event_types (DoState_read fp saved s) = event_types s"
  "ev_lost (DoState_read fp saved s) = ev_lost s"
  by (simp_all add: DoState_read_def Let_def)

lemma invoke_EmptyTimedCallback:
  assumes "type e = Some nm" "event_types s nm = Some et" "callback et = EmptyTimedCallback"
  shows "invoke fp e s = Some s"
  using assms by (simp add: invoke_def run_calls_def EmptyTimedCallback_def)

text \<open>
  C7, as amended. The sentinel is registered by \<open>Init\<close> under the name "_lost_event" with a
  callback that does nothing. When a state is loaded where \<open>ev_lost\<close> is that sentinel, the
  queue holds exactly the persisted events, as many as were persisted, each with its time,
  sequence number and userdata; an event whose name is not in the registry has the type
  "_lost_event"; the queue is a heap; and calling the callback of such an event changes
  nothing.
\<close>

theorem DoState_read_lost_event:
  assumes "ev_lost s = Some ''_lost_event''"
    and "event_types s ''_lost_event'' = Some lost" "callback lost = EmptyTimedCallback"
  shows "mset (event_queue (DoState_read fp saved s)) = mset (map (load_event s) (saved_events saved)) \<and>
         length (event_queue (DoState_read fp saved s)) = length (saved_events saved) \<and>
         is_heap (event_queue (DoState_read fp saved s)) \<and>
         (\<forall>sv :: SavedEvent. event_types s (saved_name sv) = None \<longrightarrow>
            load_event s sv =
              \<lparr>time = saved_time sv, fifo_order = saved_fifo_order sv, userdata = saved_userdata sv,
               type = Some ''_lost_event''\<rparr>) \<and>
         (\<forall>e :: Event. type e = Some ''_lost_event'' \<longrightarrow>
            invoke fp e (DoState_read fp saved s) = Some (DoState_read fp saved s))"
proof (intro conjI allI impI)
  show "mset (event_queue (DoState_read fp saved s)) = mset (map (load_event s) (saved_events saved))"
    by (simp add: DoState_read_queue)
  show "length (event_queue (DoState_read fp saved s)) = length (saved_events saved)"
    by (simp add: DoState_read_queue)
  show "is_heap (event_queue (DoState_read fp saved s))"
    by (simp add: DoState_read_queue is_heap_make_heap)
next
  fix sv :: SavedEvent assume "event_types s (saved_name sv) = None"
  then show "load_event s sv =
      \<lparr>time = saved_time sv, fifo_order = saved_fifo_order sv, userdata = saved_userdata sv,
       type = Some ''_lost_event''\<rparr>"
    using assms(1) by (simp add: load_event_def)
next
  fix e :: Event assume "type e = Some ''_lost_event''"
  then show "invoke fp e (DoState_read fp saved s) = Some (DoState_read fp saved s)"
    using assms(2,3) by (intro invoke_EmptyTimedCallback) simp_all
qed

text \<open>
  The claim as it was stated names the sentinel "_lost_event_": no type of that name is
  registered, and the lost event of scenario 5 gets the type "_lost_event".
\<close>

theorem DoState_read_lost_event_counterexample:
  "map type (event_queue (DoState_read exact_fpu saved4 reader_without_B)) =
     [Some ''A'', Some ''_lost_event'', Some ''A''] \<and>
   Some ''_lost_event'' \<noteq> Some ''_lost_event_'' \<and>
   ''_lost_event_'' \<notin> dom (event_types (DoState_read exact_fpu saved4 reader_without_B))"
proof (intro conjI)
  show "map type (event_queue (DoState_read exact_fpu saved4 reader_without_B)) =
     [Some ''A'', Some ''_lost_event'', Some ''A'']"
    by code_simp
  show "Some ''_lost_event'' \<noteq> Some ''_lost_event_''" by simp
  show "''_lost_event_'' \<notin> dom (event_types (DoState_read exact_fpu saved4 reader_without_B))"
    by (simp add: reader_without_B_def RegisterEvent_def event_types_booted dom_def)
qed

theorem DoState_read_lost_event_witness:
  "mset (event_queue (DoState_read exact_fpu saved4 reader_without_B)) =
     {#\<lparr>time = 100, fifo_order = 1, userdata = 0, type = Some ''A''\<rparr>,
       \<lparr>time = 100, fifo_order = 2, userdata = 0, type = Some ''_lost_event''\<rparr>,
       \<lparr>time = 200, fifo_order = 3, userdata = 0, type = Some ''A''\<rparr>#} \<and>
   length (event_queue (DoState_read exact_fpu saved4 reader_without_B)) = 3 \<and>
   is_heap (event_queue (DoState_read exact_fpu saved4 reader_without_B)) \<and>
   invoke exact_fpu \<lparr>time = 100, fifo_order = 2, userdata = 0, type = Some ''_lost_event''\<rparr>
     (DoState_read exact_fpu saved4 reader_without_B) = Some (DoState_read exact_fpu saved4 reader_without_B)"
proof -
  have types: "event_types reader_without_B =
      [''_lost_event'' \<mapsto> \<lparr>callback = EmptyTimedCallback, name = Some ''_lost_event''\<rparr>,
       ''A'' \<mapsto> \<lparr>callback = EmptyTimedCallback, name = Some ''A''\<rparr>]"
    by (simp add: reader_without_B_def RegisterEvent_def event_types_booted)
  have a: "ev_lost reader_without_B = Some ''_lost_event''" by code_simp
  have b: "event_types reader_without_B ''_lost_event'' =
      Some \<lparr>callback = EmptyTimedCallback, name = Some ''_lost_event''\<rparr>"
    by (simp add: types)
  have l: "map (load_event reader_without_B) (saved_events saved4) =
     [\<lparr>time = 100, fifo_order = 1, userdata = 0, type = Some ''A''\<rparr>,
       \<lparr>time = 100, fifo_order = 2, userdata = 0, type = Some ''_lost_event''\<rparr>,
       \<lparr>time = 200, fifo_order = 3, userdata = 0, type = Some ''A''\<rparr>]"
    by (simp add: load_event_def saved4_def types a)
  from DoState_read_lost_event [OF a b, of exact_fpu saved4] show ?thesis
    by (simp add: l) (simp add: saved4_def)
qed

section \<open>RemoveAllEvents\<close>

lemma mset_queue_move_each:
  "mset (event_queue (move_each evs s)) = mset (event_queue s) + mset (renumber (event_fifo_id s) evs)"
  by (induction evs arbitrary: s) simp_all

lemma mset_queue_MoveEvents:
  "mset (event_queue (MoveEvents s)) = mset (event_queue s) + mset (renumber (event_fifo_id s) (ts_queue s))"
  by (simp add: MoveEvents_def mset_queue_move_each)

lemma renumber_fields:
  "map time (renumber k evs) = map time evs"
  "map userdata (renumber k evs) = map userdata evs"
  "map type (renumber k evs) = map type evs"
  "map fifo_order (renumber k evs) = map (\<lambda>i. k + of_nat i) [0..<length evs]"
proof -
  show "map time (renumber k evs) = map time evs" by (induction evs arbitrary: k) simp_all
  show "map userdata (renumber k evs) = map userdata evs" by (induction evs arbitrary: k) simp_all
  show "map type (renumber k evs) = map type evs" by (induction evs arbitrary: k) simp_all
  show "map fifo_order (renumber k evs) = map (\<lambda>i. k + of_nat i) [0..<length evs]"
  proof (induction evs arbitrary: k)
    case Nil
    then show ?case by simp
  next
    case (Cons ev evs)
    have "map (\<lambda>i. k + of_nat i) [0..<length (ev # evs)] =
        k # map (\<lambda>i. k + of_nat i) (map Suc [0..<length evs])"
      by (simp add: upt_conv_Cons map_Suc_upt del: upt_Suc)
    also have "\<dots> = k # map (\<lambda>i. (k + 1) + of_nat i) [0..<length evs]"
      by (simp add: comp_def add.assoc add.commute)
    finally show ?case using Cons.IH [of "k + 1"] by simp
  qed
qed

text \<open>
  C5, as amended. After \<open>RemoveAllEvents\<close> with a type, from a state whose queue is a heap,
  no event of that type is in the queue and \<open>ts_queue\<close> is empty; the queue holds the events
  of other types of the queue before, unchanged, and the events of other types of
  \<open>ts_queue\<close>, each with its time, userdata and type and with the sequence number the drain
  gives it (the counter's value plus its position in \<open>ts_queue\<close>); and the queue is a heap.
\<close>

theorem RemoveAllEvents_complete:
  assumes "is_heap (event_queue s)"
  shows "(\<forall>e\<in>set (event_queue (RemoveAllEvents t s)). type e \<noteq> t) \<and>
         ts_queue (RemoveAllEvents t s) = [] \<and>
         mset (event_queue (RemoveAllEvents t s)) =
           filter_mset (\<lambda>e. type e \<noteq> t)
             (mset (event_queue s) + mset (renumber (event_fifo_id s) (ts_queue s))) \<and>
         map time (renumber (event_fifo_id s) (ts_queue s)) = map time (ts_queue s) \<and>
         map userdata (renumber (event_fifo_id s) (ts_queue s)) = map userdata (ts_queue s) \<and>
         map type (renumber (event_fifo_id s) (ts_queue s)) = map type (ts_queue s) \<and>
         map fifo_order (renumber (event_fifo_id s) (ts_queue s)) =
           map (\<lambda>i. event_fifo_id s + of_nat i) [0..<length (ts_queue s)] \<and>
         is_heap (event_queue (RemoveAllEvents t s))"
proof (intro conjI)
  show "\<forall>e\<in>set (event_queue (RemoveAllEvents t s)). type e \<noteq> t"
    by (simp add: RemoveAllEvents_def set_queue_RemoveEvent)
  show "ts_queue (RemoveAllEvents t s) = []" by simp
  show "mset (event_queue (RemoveAllEvents t s)) =
      filter_mset (\<lambda>e. type e \<noteq> t)
        (mset (event_queue s) + mset (renumber (event_fifo_id s) (ts_queue s)))"
    by (simp only: RemoveAllEvents_def mset_queue_RemoveEvent mset_queue_MoveEvents)
  show "is_heap (event_queue (RemoveAllEvents t s))"
    using assms by (rule is_heap_RemoveAllEvents)
qed (rule renumber_fields)+

text \<open>
  The claim as it was stated says the sequence number is unchanged: an event of \<open>ts_queue\<close>
  carries 0 there and gets the counter's value, here 7, when it is drained.
\<close>

theorem RemoveAllEvents_complete_counterexample:
  "\<lparr>time = 5, fifo_order = 0, userdata = 9, type = Some ''B''\<rparr> \<in> set (ts_queue with_inbox) \<and>
   mset (event_queue (RemoveAllEvents (Some ''A'') with_inbox)) =
     {#\<lparr>time = 5, fifo_order = 7, userdata = 9, type = Some ''B''\<rparr>,
       \<lparr>time = 11, fifo_order = 0, userdata = 1, type = Some ''B''\<rparr>#}"
  by code_simp

theorem RemoveAllEvents_complete_witness:
  "is_heap (event_queue with_inbox) \<and>
   list_all (\<lambda>e. type e \<noteq> Some ''A'') (event_queue (RemoveAllEvents (Some ''A'') with_inbox)) \<and>
   ts_queue (RemoveAllEvents (Some ''A'') with_inbox) = [] \<and>
   mset (event_queue (RemoveAllEvents (Some ''A'') with_inbox)) =
     {#\<lparr>time = 5, fifo_order = 7, userdata = 9, type = Some ''B''\<rparr>,
       \<lparr>time = 11, fifo_order = 0, userdata = 1, type = Some ''B''\<rparr>#} \<and>
   is_heap (event_queue (RemoveAllEvents (Some ''A'') with_inbox))"
proof -
  have h: "is_heap (event_queue with_inbox)" by code_simp
  have q: "event_queue with_inbox =
      [\<lparr>time = 10, fifo_order = 1, userdata = 2, type = Some ''A''\<rparr>,
       \<lparr>time = 11, fifo_order = 0, userdata = 1, type = Some ''B''\<rparr>]"
    "renumber (event_fifo_id with_inbox) (ts_queue with_inbox) =
      [\<lparr>time = 5, fifo_order = 7, userdata = 9, type = Some ''B''\<rparr>,
       \<lparr>time = 6, fifo_order = 8, userdata = 8, type = Some ''A''\<rparr>]"
    by (simp_all add: with_inbox_def two_events_def blank_system_def)
  from RemoveAllEvents_complete [OF h, of "Some ''A''"] h show ?thesis
    by (simp add: q list_all_iff)
qed

section \<open>AdjustEventQueueTimes\<close>

text \<open>
  C2. The claim is that \<open>AdjustEventQueueTimes\<close> keeps the heap property when all deadlines
  are at or after \<open>global_timer\<close>. The function does not: the division rounds, so two
  different deadlines can become equal, and the order of the two events is then decided by
  their sequence numbers, which the heap built before did not compare. After \<open>Init\<close>, B is
  scheduled 4 cycles ahead and then A 3 cycles ahead; the clock changes from 729 MHz to
  486 MHz. Both deadlines become 2, A stays first in the array with the greater sequence
  number, and the array is no heap.
\<close>

theorem AdjustEventQueueTimes_breaks_heap:
  "is_heap (event_queue before_rescale) \<and>
   list_all (\<lambda>e. global_timer before_rescale \<le>s time e) (event_queue before_rescale) \<and>
   event_queue before_rescale =
     [\<lparr>time = 3, fifo_order = 1, userdata = 0, type = Some ''A''\<rparr>,
      \<lparr>time = 4, fifo_order = 0, userdata = 0, type = Some ''B''\<rparr>] \<and>
   event_queue (AdjustEventQueueTimes 486000000 729000000 before_rescale) =
     [\<lparr>time = 2, fifo_order = 1, userdata = 0, type = Some ''A''\<rparr>,
      \<lparr>time = 2, fifo_order = 0, userdata = 0, type = Some ''B''\<rparr>] \<and>
   \<not> is_heap (event_queue (AdjustEventQueueTimes 486000000 729000000 before_rescale))"
  by code_simp

text \<open>The next \<open>Advance\<close> then fires A before B, though B was scheduled first.\<close>

theorem AdjustEventQueueTimes_breaks_heap_witness:
  "\<not> is_heap (event_queue (AdjustEventQueueTimes 486000000 729000000 before_rescale)) \<and>
   map_option fst
     (Advance exact_fpu 5 ((AdjustEventQueueTimes 486000000 729000000 before_rescale)\<lparr>downcount := 19990\<rparr>)) =
     Some [\<lparr>time = 2, fifo_order = 1, userdata = 0, type = Some ''A''\<rparr>,
           \<lparr>time = 2, fifo_order = 0, userdata = 0, type = Some ''B''\<rparr>]"
proof (rule conjI)
  show "\<not> is_heap (event_queue (AdjustEventQueueTimes 486000000 729000000 before_rescale))"
    using AdjustEventQueueTimes_breaks_heap by (elim conjE)
  show "map_option fst
     (Advance exact_fpu 5 ((AdjustEventQueueTimes 486000000 729000000 before_rescale)\<lparr>downcount := 19990\<rparr>)) =
     Some [\<lparr>time = 2, fifo_order = 1, userdata = 0, type = Some ''A''\<rparr>,
           \<lparr>time = 2, fifo_order = 0, userdata = 0, type = Some ''B''\<rparr>]"
    by code_simp
qed

section \<open>The order in which events are fired\<close>

lemma set_butlast_pop_heap: "set (butlast (pop_heap q)) \<subseteq> set q"
proof (cases "q = []")
  case True
  then show ?thesis by (simp add: pop_heap_def)
next
  case False
  from mset_butlast_pop_heap [OF this]
  have "set_mset (mset (butlast (pop_heap q))) \<subseteq> set_mset (mset q)"
    by (metis set_mset_add_mset_insert subset_insertI)
  then show ?thesis by simp
qed























section \<open>An event scheduled by a callback with delay 0\<close>

lemma do_call_keeps:
  assumes "type e = t" "c \<noteq> CallRemoveEvent t" "c \<noteq> CallRemoveAllEvents t"
    and "e \<in> set (event_queue s)"
  shows "e \<in> set (event_queue (do_call fp c s))"
proof (cases c)
  case (CallScheduleEvent d t' u f)
  then show ?thesis using assms(4) set_queue_ScheduleEvent by fastforce
next
  case (CallRemoveEvent t')
  then show ?thesis using assms by (simp add: set_queue_RemoveEvent)
next
  case (CallRemoveAllEvents t')
  have "e \<in> set (event_queue (MoveEvents s))" using assms(4) set_queue_MoveEvents by blast
  then show ?thesis using CallRemoveAllEvents assms(1,3)
    by (simp add: RemoveAllEvents_def set_queue_RemoveEvent)
next
  case (CallForceExceptionCheck d)
  then show ?thesis using assms(4) by simp
qed

lemma run_calls_keeps:
  "type e = t \<Longrightarrow> CallRemoveEvent t \<notin> set cs \<Longrightarrow> CallRemoveAllEvents t \<notin> set cs \<Longrightarrow>
     e \<in> set (event_queue s) \<Longrightarrow> e \<in> set (event_queue (run_calls fp cs s))"
  unfolding run_calls_def
proof (induction cs arbitrary: s)
  case Nil
  then show ?case by simp
next
  case (Cons c cs)
  have "e \<in> set (event_queue (do_call fp c s))"
    using Cons.prems by (intro do_call_keeps [of e t]) auto
  then show ?case using Cons by simp
qed

lemma hd_or_butlast_pop_heap:
  assumes "e \<in> set q"
  shows "e = hd q \<or> e \<in> set (butlast (pop_heap q))"
proof -
  have "q \<noteq> []" using assms by auto
  from mset_butlast_pop_heap [OF this]
  have "set_mset (mset q) = insert (hd q) (set_mset (mset (butlast (pop_heap q))))"
    by (metis set_mset_add_mset_insert)
  with assms show ?thesis by auto
qed

lemma do_call_quiet:
  assumes "quiet_call t c"
  shows "set (event_queue (do_call fp c s)) \<subseteq> set (event_queue s) \<and>
         length (event_queue (do_call fp c s)) \<le> length (event_queue s) \<and>
         (\<forall>e\<in>set (event_queue s). type e = t \<longrightarrow> e \<in> set (event_queue (do_call fp c s)))"
proof (cases c)
  case (CallRemoveEvent t')
  have "length (event_queue (RemoveEvent t' s)) = size (mset (event_queue (RemoveEvent t' s)))" by simp
  also have "\<dots> \<le> size (mset (event_queue s))"
    by (simp only: mset_queue_RemoveEvent) (rule size_filter_mset_lesseq)
  finally have "length (event_queue (RemoveEvent t' s)) \<le> length (event_queue s)" by simp
  then show ?thesis using CallRemoveEvent assms
    by (auto simp: set_queue_RemoveEvent quiet_call_def)
qed (use assms in \<open>simp_all add: quiet_call_def\<close>)

lemma run_calls_quiet:
  "\<forall>c\<in>set cs. quiet_call t c \<Longrightarrow>
     set (event_queue (run_calls fp cs s)) \<subseteq> set (event_queue s) \<and>
     length (event_queue (run_calls fp cs s)) \<le> length (event_queue s) \<and>
     (\<forall>e\<in>set (event_queue s). type e = t \<longrightarrow> e \<in> set (event_queue (run_calls fp cs s)))"
  unfolding run_calls_def
proof (induction cs arbitrary: s)
  case Nil
  then show ?case by simp
next
  case (Cons c cs)
  have c: "quiet_call t c" and cs: "\<forall>c\<in>set cs. quiet_call t c" using Cons.prems by simp_all
  from do_call_quiet [OF c, of fp s] Cons.IH [OF cs, of "do_call fp c s"]
  show ?case by (simp; blast intro: order_trans)
qed

lemma quiet_pending_subset:
  assumes "quiet_pending t s" "set (event_queue s') \<subseteq> set (event_queue s)" "event_types s' = event_types s"
  shows "quiet_pending t s'"
  using assms unfolding quiet_pending_def by (metis subsetD)

lemma invoke_quiet:
  assumes "quiet_pending t s" "evt \<in> set (event_queue s)"
    and "set (event_queue s1) \<subseteq> set (event_queue s)" "event_types s1 = event_types s"
  shows "\<exists>s2. invoke fp evt s1 = Some s2 \<and> event_types s2 = event_types s \<and>
           set (event_queue s2) \<subseteq> set (event_queue s1) \<and>
           length (event_queue s2) \<le> length (event_queue s1) \<and>
           (\<forall>e\<in>set (event_queue s1). type e = t \<longrightarrow> e \<in> set (event_queue s2))"
proof -
  from assms(1,2) obtain nm et where ty: "type evt = Some nm" and et: "event_types s nm = Some et"
    and q: "\<forall>ud late. \<forall>c\<in>set (callback et ud late). quiet_call t c"
    unfolding quiet_pending_def by blast
  let ?cs = "callback et (userdata evt) (global_timer s1 - time evt)"
  have inv: "invoke fp evt s1 = Some (run_calls fp ?cs s1)"
    using ty et assms(4) by (simp add: invoke_def)
  have "\<forall>c\<in>set ?cs. quiet_call t c" using q by blast
  from run_calls_quiet [OF this, of fp s1] inv assms(4) show ?thesis by simp
qed

lemma fire_loop_returns:
  "quiet_pending t s \<Longrightarrow> length (event_queue s) < n \<Longrightarrow> \<exists>fired s'. fire_loop fp n s = Some (fired, s')"
proof (induction n arbitrary: s)
  case 0
  then show ?case by simp
next
  case (Suc n)
  show ?case
  proof (cases "event_queue s \<noteq> [] \<and> time (hd (event_queue s)) \<le>s global_timer s")
    case False
    then show ?thesis by (simp add: fire_loop_Suc_idle)
  next
    case True
    then have d: "event_queue s \<noteq> []" "time (hd (event_queue s)) \<le>s global_timer s" by auto
    let ?evt = "hd (event_queue s)"
    let ?s1 = "s\<lparr>event_queue := butlast (pop_heap (event_queue s))\<rparr>"
    have evt: "?evt \<in> set (event_queue s)" using d(1) by simp
    have sub: "set (event_queue ?s1) \<subseteq> set (event_queue s)" by (simp add: set_butlast_pop_heap)
    have len1: "length (event_queue ?s1) < length (event_queue s)" using d(1) by simp
    from invoke_quiet [OF Suc.prems(1) evt sub, of fp]
    obtain s2 where inv: "invoke fp ?evt ?s1 = Some s2" and ty2: "event_types s2 = event_types s"
      and sub2: "set (event_queue s2) \<subseteq> set (event_queue ?s1)"
      and len2: "length (event_queue s2) \<le> length (event_queue ?s1)"
      by auto
    have "quiet_pending t s2"
      using Suc.prems(1) sub sub2 ty2 by (intro quiet_pending_subset [of t s s2]) auto
    moreover have "length (event_queue s2) < n" using len2 len1 Suc.prems(2) by simp
    ultimately obtain rest s' where "fire_loop fp n s2 = Some (rest, s')"
      using Suc.IH by blast
    then show ?thesis using fire_loop_Suc_due [OF d, of fp n] inv by simp
  qed
qed

lemma fire_loop_quiet_keeps:
  "fire_loop fp n s = Some (fired, s') \<Longrightarrow> quiet_pending t s \<Longrightarrow> type e = t \<Longrightarrow>
     e \<in> set (event_queue s) \<Longrightarrow> e \<in> set fired \<or> e \<in> set (event_queue s')"
proof (induction n arbitrary: s fired)
  case 0
  then show ?case by (simp add: fire_loop.simps)
next
  case (Suc n)
  from Suc.prems(1) show ?case
  proof (cases rule: fire_loop_cases)
    case (idle m)
    with Suc.prems show ?thesis by simp
  next
    case (due m s2 rest)
    let ?evt = "hd (event_queue s)"
    let ?s1 = "s\<lparr>event_queue := butlast (pop_heap (event_queue s))\<rparr>"
    have evt: "?evt \<in> set (event_queue s)" using due(2) by simp
    have sub: "set (event_queue ?s1) \<subseteq> set (event_queue s)" by (simp add: set_butlast_pop_heap)
    from invoke_quiet [OF Suc.prems(2) evt sub, of fp] due(4)
    have ty2: "event_types s2 = event_types s"
      and sub2: "set (event_queue s2) \<subseteq> set (event_queue ?s1)"
      and keep: "\<forall>e\<in>set (event_queue ?s1). type e = t \<longrightarrow> e \<in> set (event_queue s2)"
      by auto
    from hd_or_butlast_pop_heap [OF Suc.prems(4)] show ?thesis
    proof
      assume "e = ?evt"
      then show ?thesis using due(6) by simp
    next
      assume "e \<in> set (butlast (pop_heap (event_queue s)))"
      then have "e \<in> set (event_queue s2)" using keep Suc.prems(3) by simp
      moreover have "quiet_pending t s2"
        using Suc.prems(2) sub sub2 ty2 by (intro quiet_pending_subset [of t s s2]) auto
      moreover have "fire_loop fp n s2 = Some (rest, s')" using due by simp
      ultimately have "e \<in> set rest \<or> e \<in> set (event_queue s')"
        using Suc.IH Suc.prems(3) by blast
      then show ?thesis using due(6) by auto
    qed
  qed
qed

lemma not_pending_at_exit:
  assumes "fire_loop fp n s = Some (fired, s')" "is_heap (event_queue s)"
    and "time e \<le>s global_timer s"
  shows "e \<notin> set (event_queue s')"
proof
  assume pending: "e \<in> set (event_queue s')"
  have "is_heap (event_queue s')" using assms(1,2) by (rule is_heap_fire_loop)
  moreover have "event_queue s' = [] \<or> \<not> time (hd (event_queue s')) \<le>s global_timer s'"
    using assms(1) by (rule fire_loop_exit)
  ultimately have "global_timer s' <s time e" using pending by (rule all_later_than_timer)
  moreover have "global_timer s' = global_timer s" using fire_loop_frame [OF assms(1)] by simp
  ultimately show False using assms(3) by (simp add: word_sless_alt word_sle_eq)
qed

lemma call_log_split:
  "call_log fp cs s = pre @ Called c st # post \<Longrightarrow>
     \<exists>cs1 cs2. cs = cs1 @ c # cs2 \<and> st = run_calls fp cs1 s \<and> post = call_log fp cs2 (do_call fp c st)"
proof (induction cs arbitrary: s pre)
  case Nil
  then show ?case by simp
next
  case (Cons x xs)
  show ?case
  proof (cases pre)
    case Nil
    with Cons.prems have "x = c" "s = st" "post = call_log fp xs (do_call fp x s)" by auto
    then have "x # xs = [] @ c # xs \<and> st = run_calls fp [] s \<and> post = call_log fp xs (do_call fp c st)"
      by simp
    then show ?thesis by blast
  next
    case (Cons p pre')
    with Cons.prems have "call_log fp xs (do_call fp x s) = pre' @ Called c st # post" by simp
    from Cons.IH [OF this] obtain cs1 cs2 where "xs = cs1 @ c # cs2"
      "st = run_calls fp cs1 (do_call fp x s)" "post = call_log fp cs2 (do_call fp c st)"
      by blast
    then have "x # xs = (x # cs1) @ c # cs2 \<and> st = run_calls fp (x # cs1) s \<and>
        post = call_log fp cs2 (do_call fp c st)"
      by simp
    then show ?thesis by blast
  qed
qed

lemma removes_cases:
  "removes e (Called c s) \<longleftrightarrow>
     (c = CallRemoveEvent (type e) \<or> c = CallRemoveAllEvents (type e)) \<and> e \<in> set (event_queue s)"
  by (cases c) auto

lemma call_log_keeps:
  "e \<in> set (event_queue s) \<Longrightarrow>
     e \<in> set (event_queue (run_calls fp cs s)) \<or> (\<exists>step\<in>set (call_log fp cs s). removes e step)"
proof (induction cs arbitrary: s)
  case Nil
  then show ?case by simp
next
  case (Cons c cs)
  show ?case
  proof (cases "removes e (Called c s)")
    case True
    then show ?thesis by simp
  next
    case False
    with Cons.prems have "c \<noteq> CallRemoveEvent (type e)" "c \<noteq> CallRemoveAllEvents (type e)"
      by (auto simp: removes_cases)
    with Cons.prems have "e \<in> set (event_queue (do_call fp c s))"
      by (intro do_call_keeps [of e "type e"]) simp_all
    from Cons.IH [OF this] show ?thesis by auto
  qed
qed

lemma loop_log_fires:
  "fire_loop fp n s = Some (fired, s') \<Longrightarrow> is_heap (event_queue s) \<Longrightarrow>
     e \<in> set (event_queue s) \<Longrightarrow> time e \<le>s global_timer s \<Longrightarrow>
     Fired e \<in> set (loop_log fp n s) \<or> (\<exists>step\<in>set (loop_log fp n s). removes e step)"
proof (induction n arbitrary: s fired)
  case 0
  then show ?case by (simp add: fire_loop.simps)
next
  case (Suc n)
  from Suc.prems(1) show ?case
  proof (cases rule: fire_loop_cases)
    case (idle m)
    then have "event_queue s = [] \<or> \<not> time (hd (event_queue s)) \<le>s global_timer s" by auto
    with Suc.prems(2) have "global_timer s <s time e" using Suc.prems(3) by (rule all_later_than_timer)
    with Suc.prems(4) show ?thesis by (simp add: word_sless_alt word_sle_eq)
  next
    case (due m s2 rest)
    let ?evt = "hd (event_queue s)"
    let ?s1 = "s\<lparr>event_queue := butlast (pop_heap (event_queue s))\<rparr>"
    let ?cs = "callback_calls ?s1 ?evt"
    have log: "loop_log fp (Suc n) s = Fired ?evt # call_log fp ?cs ?s1 @ loop_log fp n s2"
      using due(2,3,4) by (rule loop_log_due)
    have s2: "s2 = run_calls fp ?cs ?s1" using due(4) by (rule invoke_callback_calls)
    from hd_or_butlast_pop_heap [OF Suc.prems(3)] show ?thesis
    proof
      assume "e = ?evt"
      then show ?thesis by (simp add: log)
    next
      assume "e \<in> set (butlast (pop_heap (event_queue s)))"
      then have "e \<in> set (event_queue ?s1)" by simp
      from call_log_keeps [OF this, of fp ?cs]
      show ?thesis
      proof
        assume "\<exists>step\<in>set (call_log fp ?cs ?s1). removes e step"
        then show ?thesis by (auto simp: log)
      next
        assume "e \<in> set (event_queue (run_calls fp ?cs ?s1))"
        then have in2: "e \<in> set (event_queue s2)" by (simp add: s2)
        have "is_heap (event_queue ?s1)" using Suc.prems(2) by (simp add: is_heap_butlast_pop_heap)
        then have h2: "is_heap (event_queue s2)" using due(4) by (rule is_heap_invoke [rotated])
        have g2: "time e \<le>s global_timer s2" using Suc.prems(4) by (simp add: s2)
        have run: "fire_loop fp n s2 = Some (rest, s')" using due by simp
        from Suc.IH [OF run h2 in2 g2] show ?thesis by (auto simp: log)
      qed
    qed
  qed
qed

lemma loop_log_state:
  "loop_log fp n s = pre @ Called c st # post \<Longrightarrow> is_heap (event_queue s) \<Longrightarrow>
     is_heap (event_queue st) \<and> is_global_timer_sane st = is_global_timer_sane s \<and>
     global_timer st = global_timer s \<and> event_types st = event_types s"
proof (induction n arbitrary: s pre)
  case 0
  then show ?case by (simp add: loop_log.simps)
next
  case (Suc n)
  let ?evt = "hd (event_queue s)"
  let ?s1 = "s\<lparr>event_queue := butlast (pop_heap (event_queue s))\<rparr>"
  let ?cs = "callback_calls ?s1 ?evt"
  let ?B = "case invoke fp ?evt ?s1 of None \<Rightarrow> [] | Some s2 \<Rightarrow> loop_log fp n s2"
  have due: "event_queue s \<noteq> [] \<and> time (hd (event_queue s)) \<le>s global_timer s"
    using Suc.prems(1) by (auto simp: loop_log.simps split: if_splits)
  then have log: "loop_log fp (Suc n) s = Fired ?evt # call_log fp ?cs ?s1 @ ?B"
    by (simp add: loop_log.simps Let_def)
  have h1: "is_heap (event_queue ?s1)" using Suc.prems(2) by (simp add: is_heap_butlast_pop_heap)
  from Suc.prems(1) obtain pre' where pre: "pre = Fired ?evt # pre'"
    and eq: "call_log fp ?cs ?s1 @ ?B = pre' @ Called c st # post"
    unfolding log by (cases pre) auto
  from eq [unfolded append_eq_append_conv2] show ?case
  proof (elim exE disjE conjE)
    fix us
    assume A: "call_log fp ?cs ?s1 = pre' @ us" and B: "us @ ?B = Called c st # post"
    show ?thesis
    proof (cases us)
      case Nil
      with B have B': "?B = [] @ Called c st # post" by simp
      then obtain s2 where inv: "invoke fp ?evt ?s1 = Some s2" and l2: "loop_log fp n s2 = [] @ Called c st # post"
        by (auto split: option.splits)
      have h2: "is_heap (event_queue s2)" using inv h1 by (rule is_heap_invoke)
      from Suc.IH [OF l2 h2] invoke_frame [OF inv] show ?thesis by simp
    next
      case (Cons u us')
      with B have "u = Called c st" by simp
      with A Cons have "call_log fp ?cs ?s1 = pre' @ Called c st # us'" by simp
      from call_log_split [OF this] obtain cs1 cs2 where "st = run_calls fp cs1 ?s1" by blast
      then show ?thesis using h1 by (simp add: is_heap_run_calls)
    qed
  next
    fix us
    assume A: "call_log fp ?cs ?s1 @ us = pre'" and B: "?B = us @ Called c st # post"
    then obtain s2 where inv: "invoke fp ?evt ?s1 = Some s2" and l2: "loop_log fp n s2 = us @ Called c st # post"
      by (auto split: option.splits)
    have h2: "is_heap (event_queue s2)" using inv h1 by (rule is_heap_invoke)
    from Suc.IH [OF l2 h2] invoke_frame [OF inv] show ?thesis by simp
  qed
qed

lemma loop_log_after:
  "fire_loop fp n s = Some (fired, s') \<Longrightarrow> is_heap (event_queue s) \<Longrightarrow>
     loop_log fp n s = pre @ Called c st # post \<Longrightarrow>
     e \<in> set (event_queue (do_call fp c st)) \<Longrightarrow> time e \<le>s global_timer s \<Longrightarrow>
     Fired e \<in> set post \<or> (\<exists>step\<in>set post. removes e step)"
proof (induction n arbitrary: s fired pre)
  case 0
  then show ?case by (simp add: fire_loop.simps)
next
  case (Suc n)
  from Suc.prems(1) show ?case
  proof (cases rule: fire_loop_cases)
    case (idle m)
    then have "loop_log fp (Suc n) s = []" by (simp add: loop_log_idle)
    with Suc.prems(3) show ?thesis by simp
  next
    case (due m s2 rest)
    let ?evt = "hd (event_queue s)"
    let ?s1 = "s\<lparr>event_queue := butlast (pop_heap (event_queue s))\<rparr>"
    let ?cs = "callback_calls ?s1 ?evt"
    have log: "loop_log fp (Suc n) s = Fired ?evt # call_log fp ?cs ?s1 @ loop_log fp n s2"
      using due(2,3,4) by (rule loop_log_due)
    have s2: "s2 = run_calls fp ?cs ?s1" using due(4) by (rule invoke_callback_calls)
    have h1: "is_heap (event_queue ?s1)" using Suc.prems(2) by (simp add: is_heap_butlast_pop_heap)
    have h2: "is_heap (event_queue s2)" using due(4) h1 by (rule is_heap_invoke)
    have g2: "time e \<le>s global_timer s2" using Suc.prems(5) by (simp add: s2)
    have run: "fire_loop fp n s2 = Some (rest, s')" using due by simp
    from Suc.prems(3) obtain pre' where pre: "pre = Fired ?evt # pre'"
      and eq: "call_log fp ?cs ?s1 @ loop_log fp n s2 = pre' @ Called c st # post"
      unfolding log by (cases pre) auto
    from eq [unfolded append_eq_append_conv2] show ?thesis
    proof (elim exE disjE conjE)
      fix us
      assume A: "call_log fp ?cs ?s1 = pre' @ us" and B: "us @ loop_log fp n s2 = Called c st # post"
      show ?thesis
      proof (cases us)
        case Nil
        with B have "loop_log fp n s2 = [] @ Called c st # post" by simp
        from Suc.IH [OF run h2 this Suc.prems(4) g2] show ?thesis .
      next
        case (Cons u us')
        with B have u: "u = Called c st" and post: "post = us' @ loop_log fp n s2" by simp_all
        with A Cons have "call_log fp ?cs ?s1 = pre' @ Called c st # us'" by simp
        from call_log_split [OF this] obtain cs1 cs2 where cs: "?cs = cs1 @ c # cs2"
          and st: "st = run_calls fp cs1 ?s1" and us': "us' = call_log fp cs2 (do_call fp c st)"
          by blast
        have s2': "s2 = run_calls fp cs2 (do_call fp c st)"
          unfolding s2 by (subst cs) (simp add: run_calls_append st)
        from call_log_keeps [OF Suc.prems(4), of fp cs2] show ?thesis
        proof
          assume "\<exists>step\<in>set (call_log fp cs2 (do_call fp c st)). removes e step"
          then show ?thesis by (auto simp: post us')
        next
          assume "e \<in> set (event_queue (run_calls fp cs2 (do_call fp c st)))"
          then have "e \<in> set (event_queue s2)" by (simp add: s2')
          from loop_log_fires [OF run h2 this g2] show ?thesis by (auto simp: post)
        qed
      qed
    next
      fix us
      assume A: "call_log fp ?cs ?s1 @ us = pre'" and B: "loop_log fp n s2 = us @ Called c st # post"
      from Suc.IH [OF run h2 B Suc.prems(4) g2] show ?thesis .
    qed
  qed
qed

lemma in_set_drop_nth:
  assumes "x \<in> set (drop (Suc i) xs)"
  shows "\<exists>k. i < k \<and> k < length xs \<and> xs ! k = x"
proof -
  from assms obtain m where m: "m < length (drop (Suc i) xs)" "drop (Suc i) xs ! m = x"
    unfolding in_set_conv_nth by blast
  then have "i < Suc i + m \<and> Suc i + m < length xs \<and> xs ! (Suc i + m) = x" by auto
  then show ?thesis by blast
qed

lemma loop_log_starts: "loop_log fp n s = [] \<or> (\<exists>e tl. loop_log fp n s = Fired e # tl)"
  by (cases n) (auto simp: loop_log.simps Let_def)

lemma takeWhile_call_log:
  "takeWhile (\<lambda>x. fired_step x = None) (call_log fp cs s @ loop_log fp n s2) = call_log fp cs s"
proof -
  have all: "\<forall>x\<in>set (call_log fp cs s). fired_step x = None"
    by (induction cs arbitrary: s) simp_all
  have "takeWhile (\<lambda>x. fired_step x = None) (loop_log fp n s2) = []"
    using loop_log_starts [of fp n s2] by auto
  with all show ?thesis by (simp add: takeWhile_append2)
qed

lemma takeWhile_call_log_only:
  "takeWhile (\<lambda>x. fired_step x = None) (call_log fp cs s) = call_log fp cs s"
proof -
  have "\<forall>x\<in>set (call_log fp cs s). fired_step x = None"
    by (induction cs arbitrary: s) simp_all
  then show ?thesis by simp
qed

lemma map_filter_call_log [simp]: "List.map_filter call_step (call_log fp cs s) = cs"
  by (induction cs arbitrary: s) (simp_all add: List.map_filter_simps)

lemma loop_log_resume:
  "loop_log fp n s = pre @ Called c st # post \<Longrightarrow>
     \<exists>cs2 k. takeWhile (\<lambda>x. fired_step x = None) post = call_log fp cs2 (do_call fp c st) \<and>
       (\<forall>m fired2 s'. fire_loop fp m (run_calls fp cs2 (do_call fp c st)) = Some (fired2, s') \<longrightarrow>
          (\<exists>fired1. fire_loop fp (k + m) s = Some (fired1 @ fired2, s')))"
proof (induction n arbitrary: s pre)
  case 0
  then show ?case by (simp add: loop_log.simps)
next
  case (Suc n)
  let ?evt = "hd (event_queue s)"
  let ?s1 = "s\<lparr>event_queue := butlast (pop_heap (event_queue s))\<rparr>"
  let ?cs = "callback_calls ?s1 ?evt"
  let ?B = "case invoke fp ?evt ?s1 of None \<Rightarrow> [] | Some s2 \<Rightarrow> loop_log fp n s2"
  have due: "event_queue s \<noteq> []" "time (hd (event_queue s)) \<le>s global_timer s"
    using Suc.prems(1) by (auto simp: loop_log.simps split: if_splits)
  then have log: "loop_log fp (Suc n) s = Fired ?evt # call_log fp ?cs ?s1 @ ?B"
    by (simp add: loop_log.simps Let_def)
  from Suc.prems(1) obtain pre' where pre: "pre = Fired ?evt # pre'"
    and eq: "call_log fp ?cs ?s1 @ ?B = pre' @ Called c st # post"
    unfolding log by (cases pre) auto
  have inv: "\<exists>s2. invoke fp ?evt ?s1 = Some s2"
  proof (cases "invoke fp ?evt ?s1")
    case None
    then have "?cs = []" by (rule invoke_None_calls)
    with None eq show ?thesis by simp
  qed simp
  then obtain s2 where inv: "invoke fp ?evt ?s1 = Some s2" by blast
  have s2: "s2 = run_calls fp ?cs ?s1" using inv by (rule invoke_callback_calls)
  have B: "?B = loop_log fp n s2" by (simp add: inv)
  have step: "fire_loop fp (Suc m) s = Some (?evt # fired, s')" if "fire_loop fp m s2 = Some (fired, s')"
    for m fired s'
    using fire_loop_Suc_due [OF due, of fp m] inv that by simp
  from eq [unfolded B append_eq_append_conv2] show ?case
  proof (elim exE disjE conjE)
    fix us
    assume A: "call_log fp ?cs ?s1 = pre' @ us" and C: "us @ loop_log fp n s2 = Called c st # post"
    show ?thesis
    proof (cases us)
      case Nil
      with C have "loop_log fp n s2 = [] @ Called c st # post" by simp
      from Suc.IH [OF this] obtain cs2 k where
        t: "takeWhile (\<lambda>x. fired_step x = None) post = call_log fp cs2 (do_call fp c st)"
        and r: "\<forall>m fired2 s'. fire_loop fp m (run_calls fp cs2 (do_call fp c st)) = Some (fired2, s') \<longrightarrow>
          (\<exists>fired1. fire_loop fp (k + m) s2 = Some (fired1 @ fired2, s'))"
        by blast
      have "\<exists>fired1. fire_loop fp (Suc k + m) s = Some (fired1 @ fired2, s')"
        if "fire_loop fp m (run_calls fp cs2 (do_call fp c st)) = Some (fired2, s')" for m fired2 s'
      proof -
        from r that obtain fired1 where "fire_loop fp (k + m) s2 = Some (fired1 @ fired2, s')" by blast
        from step [OF this] have "fire_loop fp (Suc k + m) s = Some ((?evt # fired1) @ fired2, s')" by simp
        then show ?thesis by blast
      qed
      with t show ?thesis by blast
    next
      case (Cons u us')
      with C have u: "u = Called c st" and post: "post = us' @ loop_log fp n s2" by simp_all
      with A Cons have "call_log fp ?cs ?s1 = pre' @ Called c st # us'" by simp
      from call_log_split [OF this] obtain cs1 cs2 where cs: "?cs = cs1 @ c # cs2"
        and st: "st = run_calls fp cs1 ?s1" and us': "us' = call_log fp cs2 (do_call fp c st)"
        by blast
      have s2': "s2 = run_calls fp cs2 (do_call fp c st)"
        unfolding s2 by (subst cs) (simp add: run_calls_append st)
      have t: "takeWhile (\<lambda>x. fired_step x = None) post = call_log fp cs2 (do_call fp c st)"
        by (simp add: post us' takeWhile_call_log)
      have "\<exists>fired1. fire_loop fp (Suc 0 + m) s = Some (fired1 @ fired2, s')"
        if "fire_loop fp m (run_calls fp cs2 (do_call fp c st)) = Some (fired2, s')" for m fired2 s'
      proof -
        from that have "fire_loop fp m s2 = Some (fired2, s')" by (simp add: s2')
        from step [OF this] have "fire_loop fp (Suc 0 + m) s = Some ([?evt] @ fired2, s')" by simp
        then show ?thesis by blast
      qed
      with t show ?thesis by blast
    qed
  next
    fix us
    assume A: "call_log fp ?cs ?s1 @ us = pre'" and C: "loop_log fp n s2 = us @ Called c st # post"
    from Suc.IH [OF C] obtain cs2 k where
      t: "takeWhile (\<lambda>x. fired_step x = None) post = call_log fp cs2 (do_call fp c st)"
      and r: "\<forall>m fired2 s'. fire_loop fp m (run_calls fp cs2 (do_call fp c st)) = Some (fired2, s') \<longrightarrow>
        (\<exists>fired1. fire_loop fp (k + m) s2 = Some (fired1 @ fired2, s'))"
      by blast
    have "\<exists>fired1. fire_loop fp (Suc k + m) s = Some (fired1 @ fired2, s')"
      if "fire_loop fp m (run_calls fp cs2 (do_call fp c st)) = Some (fired2, s')" for m fired2 s'
    proof -
      from r that obtain fired1 where "fire_loop fp (k + m) s2 = Some (fired1 @ fired2, s')" by blast
      from step [OF this] have "fire_loop fp (Suc k + m) s = Some ((?evt # fired1) @ fired2, s')" by simp
      then show ?thesis by blast
    qed
    with t show ?thesis by blast
  qed
qed

text \<open>
  C3, as amended. Let a callback called by the loop of \<open>Advance\<close> call \<open>ScheduleEvent\<close> on
  the CPU thread with delay 0 (step \<open>i\<close> of the pass, made in the state \<open>st\<close>). Then
  \<open>is_global_timer_sane\<close> is set, \<open>GetTicks\<close> is \<open>global_timer\<close>, and the event \<open>e\<close> that enters
  the queue has the deadline \<open>global_timer\<close>. Whenever the pass returns, \<open>e\<close> has been fired by
  a later step of it, unless a later step is a call of \<open>RemoveEvent\<close> or \<open>RemoveAllEvents\<close> that
  removes it from the queue. And if the calls that the callback goes on to make remove no
  events of the type of \<open>e\<close>, and the callbacks of the events that are in the queue when it
  returns are quiet, then \<open>Advance\<close> does return, given enough fuel, and has fired \<open>e\<close>.
\<close>

theorem zero_delta_fires_in_pass:
  assumes "is_heap (event_queue s)"
    and "L = loop_log fp n (Advance_begin fp s)"
    and "i < length L"
    and "L ! i = Called (CallScheduleEvent 0 t ud f) st"
    and "f \<noteq> NON_CPU"
    and "e = \<lparr>time = global_timer st, fifo_order = event_fifo_id st, userdata = ud, type = t\<rparr>"
  shows "is_global_timer_sane st \<and> GetTicks fp st = global_timer st \<and>
         global_timer st = global_timer (Advance_begin fp s) \<and> event_types st = event_types s \<and>
         mset (event_queue (do_call fp (CallScheduleEvent 0 t ud f) st)) = add_mset e (mset (event_queue st)) \<and>
         (\<forall>fired s'. Advance fp n s = Some (fired, s') \<longrightarrow>
            (\<exists>k. i < k \<and> k < length L \<and> L ! k = Fired e) \<or>
            (\<exists>j. i < j \<and> j < length L \<and> removes e (L ! j))) \<and>
         (CallRemoveEvent t \<notin> set (rest_of_callback L i) \<and>
          CallRemoveAllEvents t \<notin> set (rest_of_callback L i) \<and>
          quiet_pending t (run_calls fp (CallScheduleEvent 0 t ud f # rest_of_callback L i) st) \<longrightarrow>
            (\<exists>m fired s'. Advance fp m s = Some (fired, s') \<and> e \<in> set fired))"
proof -
  let ?c = "CallScheduleEvent 0 t ud f"
  let ?s0 = "Advance_begin fp s"
  have h0: "is_heap (event_queue ?s0)" using assms(1) by (simp add: is_heap_MoveEvents)
  have split: "loop_log fp n ?s0 = take i L @ Called ?c st # drop (Suc i) L"
    using id_take_nth_drop [OF assms(3)] assms(2,4) by simp
  from loop_log_state [OF split h0]
  have hst: "is_heap (event_queue st)" and sane: "is_global_timer_sane st"
    and gst: "global_timer st = global_timer ?s0" and tst: "event_types st = event_types s"
    by simp_all
  have ticks: "GetTicks fp st = global_timer st" using sane by (simp add: GetTicks_def)
  have cpu: "f = CPU \<or> (f = ANY \<and> True)" using assms(5) by (cases f) simp_all
  have sched: "do_call fp ?c st =
      st\<lparr>event_queue := push_heap (event_queue st @ [e]), event_fifo_id := event_fifo_id st + 1\<rparr>"
    using ScheduleEvent_sane [OF sane cpu, of fp 0 t ud] by (simp add: assms(6))
  then have enters: "mset (event_queue (do_call fp ?c st)) = add_mset e (mset (event_queue st))"
    by simp
  have pending: "e \<in> set (event_queue (do_call fp ?c st))"
    unfolding sched by simp
  have due: "time e \<le>s global_timer ?s0" by (simp add: assms(6) gst)
  have ty: "type e = t" by (simp add: assms(6))
  have part2: "(\<exists>k. i < k \<and> k < length L \<and> L ! k = Fired e) \<or>
      (\<exists>j. i < j \<and> j < length L \<and> removes e (L ! j))"
    if run: "Advance fp n s = Some (fired, s')" for fired s'
  proof -
    from run obtain s3 where loop: "fire_loop fp n ?s0 = Some (fired, s3)" by (rule Advance_cases)
    from loop_log_after [OF loop h0 split pending due]
    show ?thesis
    proof
      assume "Fired e \<in> set (drop (Suc i) L)"
      then have "\<exists>k. i < k \<and> k < length L \<and> L ! k = Fired e" by (rule in_set_drop_nth)
      then show ?thesis by (rule disjI1)
    next
      assume "\<exists>step\<in>set (drop (Suc i) L). removes e step"
      then obtain step where st: "step \<in> set (drop (Suc i) L)" and rm: "removes e step" by (rule bexE)
      from in_set_drop_nth [OF st] obtain j where "i < j" "j < length L" "L ! j = step" by (elim exE conjE)
      with rm have "\<exists>j. i < j \<and> j < length L \<and> removes e (L ! j)" by (intro exI [of _ j]) simp
      then show ?thesis by (rule disjI2)
    qed
  qed
  have part3: "\<exists>m fired s'. Advance fp m s = Some (fired, s') \<and> e \<in> set fired"
    if a: "CallRemoveEvent t \<notin> set (rest_of_callback L i) \<and>
          CallRemoveAllEvents t \<notin> set (rest_of_callback L i) \<and>
          quiet_pending t (run_calls fp (?c # rest_of_callback L i) st)"
  proof -
    from loop_log_resume [OF split] obtain cs2 k where
      t: "takeWhile (\<lambda>x. fired_step x = None) (drop (Suc i) L) = call_log fp cs2 (do_call fp ?c st)"
      and r: "\<forall>m fired2 s'. fire_loop fp m (run_calls fp cs2 (do_call fp ?c st)) = Some (fired2, s') \<longrightarrow>
        (\<exists>fired1. fire_loop fp (k + m) ?s0 = Some (fired1 @ fired2, s'))"
      by blast
    have rest: "rest_of_callback L i = cs2" by (simp add: rest_of_callback_def t)
    let ?s2 = "run_calls fp cs2 (do_call fp ?c st)"
    have qp: "quiet_pending t ?s2" using a by (simp add: rest)
    have in2: "e \<in> set (event_queue ?s2)"
      using a by (intro run_calls_keeps [of e t] ty pending) (simp_all add: rest)
    have "is_heap (event_queue (do_call fp ?c st))" using hst by (rule is_heap_do_call)
    then have h2: "is_heap (event_queue ?s2)" by (rule is_heap_run_calls)
    have due2: "time e \<le>s global_timer ?s2" by (simp add: assms(6))
    obtain fired2 s2 where loop: "fire_loop fp (Suc (length (event_queue ?s2))) ?s2 = Some (fired2, s2)"
      using fire_loop_returns [OF qp, of "Suc (length (event_queue ?s2))" fp] by auto
    from fire_loop_quiet_keeps [OF loop qp ty in2]
    have "e \<in> set fired2 \<or> e \<in> set (event_queue s2)" .
    moreover have "e \<notin> set (event_queue s2)" using loop h2 due2 by (rule not_pending_at_exit)
    ultimately have fired: "e \<in> set fired2" by blast
    from r [rule_format, OF loop] obtain fired1 where
      "fire_loop fp (k + Suc (length (event_queue ?s2))) ?s0 = Some (fired1 @ fired2, s2)"
      by (rule exE)
    then have "Advance fp (k + Suc (length (event_queue ?s2))) s = Some (fired1 @ fired2, Advance_end fp s2)"
      by (simp add: Advance_def)
    with fired have "Advance fp (k + Suc (length (event_queue ?s2))) s = Some (fired1 @ fired2, Advance_end fp s2) \<and>
        e \<in> set (fired1 @ fired2)" by simp
    then show ?thesis by (intro exI)
  qed
  show ?thesis
  proof (intro conjI allI impI)
    show "is_global_timer_sane st" by (rule sane)
    show "GetTicks fp st = global_timer st" by (rule ticks)
    show "global_timer st = global_timer ?s0" by (rule gst)
    show "event_types st = event_types s" by (rule tst)
    show "mset (event_queue (do_call fp ?c st)) = add_mset e (mset (event_queue st))" by (rule enters)
  next
    fix fired s'
    assume "Advance fp n s = Some (fired, s')"
    then show "(\<exists>k. i < k \<and> k < length L \<and> L ! k = Fired e) \<or>
        (\<exists>j. i < j \<and> j < length L \<and> removes e (L ! j))"
      by (rule part2)
  next
    assume "CallRemoveEvent t \<notin> set (rest_of_callback L i) \<and>
          CallRemoveAllEvents t \<notin> set (rest_of_callback L i) \<and>
          quiet_pending t (run_calls fp (?c # rest_of_callback L i) st)"
    then show "\<exists>m fired s'. Advance fp m s = Some (fired, s') \<and> e \<in> set fired"
      by (rule part3)
  qed
qed

text \<open>
  The claim as it was stated fails when the event is removed before it is fired: the
  callback of A schedules B with delay 0, the callback of C, which is due before B, removes
  the events of type B, and the pass returns having fired A and C only.
\<close>

theorem zero_delta_fires_in_pass_counterexample:
  "chain_callback 0 0 = [CallScheduleEvent 0 (Some ''B'') 0 CPU] \<and>
   map_option (map type \<circ> fst) (Advance exact_fpu 9 cancelled) = Some [Some ''A'', Some ''C''] \<and>
   map_option (event_queue \<circ> snd) (Advance exact_fpu 9 cancelled) = Some []"
  by code_simp

theorem zero_delta_fires_in_pass_witness:
  "(\<exists>st. loop_log exact_fpu 9 (Advance_begin exact_fpu busy) ! 1 =
            Called (CallScheduleEvent 0 (Some ''B'') 0 CPU) st \<and>
      event_queue st = [\<lparr>time = 100, fifo_order = 1, userdata = 1, type = Some ''D''\<rparr>] \<and>
      is_global_timer_sane st \<and> GetTicks exact_fpu st = 100 \<and> event_fifo_id st = 2) \<and>
   map_option (map type \<circ> fst) (Advance exact_fpu 9 busy) = Some [Some ''A'', Some ''D'', Some ''B''] \<and>
   (\<exists>k. 1 < k \<and> k < length (loop_log exact_fpu 9 (Advance_begin exact_fpu busy)) \<and>
      loop_log exact_fpu 9 (Advance_begin exact_fpu busy) ! k =
        Fired \<lparr>time = 100, fifo_order = 2, userdata = 0, type = Some ''B''\<rparr>) \<and>
   (\<exists>st. loop_log exact_fpu 9 (Advance_begin exact_fpu (run_calls exact_fpu scenario1 chained)) ! 4 =
            Called (CallScheduleEvent 0 (Some ''B'') 2 CPU) st \<and>
      event_queue st = [\<lparr>time = 150, fifo_order = 3, userdata = 0, type = Some ''B''\<rparr>] \<and>
      quiet_pending (Some ''B'') (run_calls exact_fpu [CallScheduleEvent 0 (Some ''B'') 2 CPU] st)) \<and>
   (\<exists>m fired s'. Advance exact_fpu m (run_calls exact_fpu scenario1 chained) = Some (fired, s') \<and>
      \<lparr>time = 150, fifo_order = 4, userdata = 2, type = Some ''B''\<rparr> \<in> set fired)"
proof -
  let ?L = "loop_log exact_fpu 9 (Advance_begin exact_fpu busy)"
  let ?c = "CallScheduleEvent 0 (Some ''B'') 0 CPU"
  let ?e = "\<lparr>time = 100, fifo_order = 2, userdata = 0, type = Some ''B''\<rparr>"
  have "call_step (?L ! 1) = Some ?c" by code_simp
  then obtain st where st: "?L ! 1 = Called ?c st" by (auto simp: call_step_Some)
  have ss: "state_step (?L ! 1) = Some st" by (simp only: st state_step.simps)
  have "map_option (\<lambda>st. (event_queue st, global_timer st, event_fifo_id st)) (state_step (?L ! 1)) =
      Some ([\<lparr>time = 100, fifo_order = 1, userdata = 1, type = Some ''D''\<rparr>], 100, 2)"
    by code_simp
  then have q: "event_queue st = [\<lparr>time = 100, fifo_order = 1, userdata = 1, type = Some ''D''\<rparr>]"
    and g: "global_timer st = 100" and k: "event_fifo_id st = 2"
    unfolding ss by simp_all
  have len: "1 < length ?L" by code_simp
  have heap: "is_heap (event_queue busy)" by code_simp
  have cpu: "CPU \<noteq> NON_CPU" by simp
  have e: "?e = \<lparr>time = global_timer st, fifo_order = event_fifo_id st, userdata = 0, type = Some ''B''\<rparr>"
    by (simp add: g k)
  note part = zero_delta_fires_in_pass [OF heap refl len st cpu e]
  have sane: "is_global_timer_sane st" using part by (elim conjE)
  have ticks: "GetTicks exact_fpu st = 100" using part g by simp
  have types: "map_option (map type \<circ> fst) (Advance exact_fpu 9 busy) = Some [Some ''A'', Some ''D'', Some ''B'']"
    by code_simp
  then obtain fired s' where run: "Advance exact_fpu 9 busy = Some (fired, s')" by auto
  have keep: "list_all (\<lambda>step. \<not> removes ?e step) ?L" by code_simp
  have later: "(\<exists>k. 1 < k \<and> k < length ?L \<and> ?L ! k = Fired ?e) \<or>
      (\<exists>j. 1 < j \<and> j < length ?L \<and> removes ?e (?L ! j))"
    using part run by blast
  then have fires: "\<exists>k. 1 < k \<and> k < length ?L \<and> ?L ! k = Fired ?e"
  proof
    assume "\<exists>j. 1 < j \<and> j < length ?L \<and> removes ?e (?L ! j)"
    then obtain j where "j < length ?L" "removes ?e (?L ! j)" by blast
    moreover from this(1) have "?L ! j \<in> set ?L" by (rule nth_mem)
    ultimately show ?thesis using keep by (simp add: list_all_iff)
  qed
  let ?s2 = "run_calls exact_fpu scenario1 chained"
  let ?L2 = "loop_log exact_fpu 9 (Advance_begin exact_fpu ?s2)"
  let ?c2 = "CallScheduleEvent 0 (Some ''B'') 2 CPU"
  let ?e2 = "\<lparr>time = 150, fifo_order = 4, userdata = 2, type = Some ''B''\<rparr>"
  have "call_step (?L2 ! 4) = Some ?c2" by code_simp
  then obtain st2 where st2: "?L2 ! 4 = Called ?c2 st2" by (auto simp: call_step_Some)
  have ss2: "state_step (?L2 ! 4) = Some st2" by (simp only: st2 state_step.simps)
  have "map_option (\<lambda>st. (event_queue st, global_timer st, event_fifo_id st,
        event_queue (run_calls exact_fpu [?c2] st))) (state_step (?L2 ! 4)) =
      Some ([\<lparr>time = 150, fifo_order = 3, userdata = 0, type = Some ''B''\<rparr>], 150, 4,
        [\<lparr>time = 150, fifo_order = 3, userdata = 0, type = Some ''B''\<rparr>,
         \<lparr>time = 150, fifo_order = 4, userdata = 2, type = Some ''B''\<rparr>])"
    by code_simp
  then have q2: "event_queue st2 = [\<lparr>time = 150, fifo_order = 3, userdata = 0, type = Some ''B''\<rparr>]"
    and g2: "global_timer st2 = 150" and k2: "event_fifo_id st2 = 4"
    and after: "event_queue (run_calls exact_fpu [?c2] st2) =
        [\<lparr>time = 150, fifo_order = 3, userdata = 0, type = Some ''B''\<rparr>,
         \<lparr>time = 150, fifo_order = 4, userdata = 2, type = Some ''B''\<rparr>]"
    unfolding ss2 by simp_all
  have len2: "4 < length ?L2" by code_simp
  have heap2: "is_heap (event_queue ?s2)" by code_simp
  have e2: "?e2 = \<lparr>time = global_timer st2, fifo_order = event_fifo_id st2, userdata = 2, type = Some ''B''\<rparr>"
    by (simp add: g2 k2)
  note part2 = zero_delta_fires_in_pass [OF heap2 refl len2 st2 cpu e2]
  have "event_types st2 = event_types ?s2" using part2 by (elim conjE)
  then have types2: "event_types (run_calls exact_fpu [?c2] st2) =
      [''_lost_event'' \<mapsto> \<lparr>callback = EmptyTimedCallback, name = Some ''_lost_event''\<rparr>,
       ''A'' \<mapsto> \<lparr>callback = chain_callback, name = Some ''A''\<rparr>,
       ''B'' \<mapsto> \<lparr>callback = EmptyTimedCallback, name = Some ''B''\<rparr>]"
    by (simp add: chained_def RegisterEvent_def event_types_booted)
  have rest: "rest_of_callback ?L2 4 = []" by code_simp
  have qp: "quiet_pending (Some ''B'') (run_calls exact_fpu [?c2] st2)"
    unfolding quiet_pending_def after types2 by (simp add: EmptyTimedCallback_def)
  have "\<exists>m fired s'. Advance exact_fpu m ?s2 = Some (fired, s') \<and> ?e2 \<in> set fired"
    using part2 qp by (simp only: rest) simp
  with st st2 q q2 sane ticks k types fires qp show ?thesis by blast
qed

end
